theory Spec2Isabelle
  imports Complex_Main "HOL-Library.Log_Nat" "HOL-Library.Monad_Syntax"
begin

section \<open>Site percolation over two disjoint-set structures\<close>

text \<open>
  The development embeds \<^verbatim>\<open>src/SitePercolation.cc\<close>: the constructor,
  \<^verbatim>\<open>initialize_supernodes\<close>, \<^verbatim>\<open>generate_single_percolation\<close>,
  \<^verbatim>\<open>generate_full_percolation\<close> and \<^verbatim>\<open>has_percolation\<close>.
  The class \<^verbatim>\<open>UnionFind\<close> that the engine owns twice is declared in a header that is
  not part of the sources at hand; its four operations are modelled from the
  specification (section 4.1) and are marked as such.

  Conventions of the embedding.
  \<^item> Node indices, sizes and counts are C++ \<^verbatim>\<open>int\<close>s that never leave \<open>[0, N + 2)\<close>;
    they are natural numbers here. The caller's \<^verbatim>\<open>int &Smax\<close> may hold any value and is
    an \<open>int\<close>.
  \<^item> A read or write outside a vector, which is undefined behaviour in C++, and a
    \<^verbatim>\<open>find\<close> that would never return, are the value \<open>None\<close>.
  \<^item> \<^verbatim>\<open>double\<close> is IEEE 754 binary64 with round-to-nearest-even: a finite value is the
    rational it denotes, \<open>p += step\<close> rounds the exact sum. The two zeros are identified
    (the program never divides by a zero that could be negative and never prints a sign
    of zero into a value it reads back).
  \<^item> What the program writes to \<^verbatim>\<open>cerr\<close>, \<^verbatim>\<open>cout\<close> and the two CSV files is returned as
    lists next to the result.
\<close>

subsection \<open>IEEE 754 binary64 values\<close>

datatype double = Fin rat | PInf | NInf | NaN

text \<open>Rounding a rational to the nearest integer, ties to the even one.\<close>

definition rne :: "rat \<Rightarrow> int" where
  "rne q = (let f = \<lfloor>q\<rfloor>; d = q - of_int f in
     if d < 1 / 2 then f else if 1 / 2 < d then f + 1 else if even f then f else f + 1)"

text \<open>\<open>ilog2 x\<close> is \<open>\<lfloor>log\<^sub>2 x\<rfloor>\<close> for a positive rational, found from the bit lengths of
  numerator and denominator.\<close>

definition ilog2 :: "rat \<Rightarrow> int" where
  "ilog2 x = (let e0 = bitlen (fst (quotient_of x)) - bitlen (snd (quotient_of x)) in
      if 2 powi e0 \<le> x then e0 else e0 - 1)"

text \<open>Rounding to binary64: 53 significant bits, least exponent \<open>-1022\<close> (so the spacing
  never falls below \<open>2\<^sup>-\<^sup>1\<^sup>0\<^sup>7\<^sup>4\<close>), overflow to an infinity from \<open>2\<^sup>1\<^sup>0\<^sup>2\<^sup>4\<close> on.\<close>

definition rnd :: "rat \<Rightarrow> double" where
  "rnd x = (if x = 0 then Fin 0 else
     let q = max (ilog2 \<bar>x\<bar>) (- 1022) - 52;
         k = rne (x / 2 powi q)
     in if 971 < q \<or> (q = 971 \<and> 2 ^ 53 \<le> \<bar>k\<bar>) then (if 0 < x then PInf else NInf)
        else Fin (of_int k * 2 powi q))"

fun dadd :: "double \<Rightarrow> double \<Rightarrow> double" where
  "dadd NaN _ = NaN"
| "dadd _ NaN = NaN"
| "dadd (Fin a) (Fin b) = rnd (a + b)"
| "dadd PInf NInf = NaN"
| "dadd NInf PInf = NaN"
| "dadd PInf _ = PInf"
| "dadd _ PInf = PInf"
| "dadd NInf _ = NInf"
| "dadd _ NInf = NInf"

fun ddiv :: "double \<Rightarrow> double \<Rightarrow> double" where
  "ddiv NaN _ = NaN"
| "ddiv _ NaN = NaN"
| "ddiv (Fin a) (Fin b) =
     (if b = 0 then (if a = 0 then NaN else if 0 < a then PInf else NInf) else rnd (a / b))"
| "ddiv (Fin a) _ = Fin 0"
| "ddiv PInf (Fin b) = (if 0 \<le> b then PInf else NInf)"
| "ddiv NInf (Fin b) = (if 0 \<le> b then NInf else PInf)"
| "ddiv _ _ = NaN"

text \<open>The comparisons \<^verbatim>\<open><\<close> and \<^verbatim>\<open><=\<close>: false as soon as one side is a NaN.\<close>

fun dlt :: "double \<Rightarrow> double \<Rightarrow> bool" where
  "dlt NaN _ = False"
| "dlt _ NaN = False"
| "dlt (Fin a) (Fin b) = (a < b)"
| "dlt _ NInf = False"
| "dlt PInf _ = False"
| "dlt _ _ = True"

fun dle :: "double \<Rightarrow> double \<Rightarrow> bool" where
  "dle NaN _ = False"
| "dle _ NaN = False"
| "dle (Fin a) (Fin b) = (a \<le> b)"
| "dle NInf _ = True"
| "dle _ PInf = True"
| "dle _ _ = False"

text \<open>Conversion of an \<^verbatim>\<open>int\<close> (exact below \<open>2\<^sup>5\<^sup>3\<close>) and of a decimal literal.\<close>

definition double_of_int :: "int \<Rightarrow> double" where
  "double_of_int i = rnd (of_int i)"

text \<open>The loop bound \<^verbatim>\<open>1.0 + 1e-10\<close>, evaluated in binary64.\<close>

definition sweep_bound :: double where
  "sweep_bound = dadd (Fin 1) (rnd (1 / 10 ^ 10))"

subsection \<open>The disjoint-set structure\<close>

text \<open>
  Modelled from the spec: the class \<^verbatim>\<open>UnionFind\<close> (constructor, \<^verbatim>\<open>find\<close>, \<^verbatim>\<open>unite\<close>,
  \<^verbatim>\<open>get_size\<close>, \<^verbatim>\<open>Ncc\<close>) is missing from the sources. Section 3 gives its data: a
  parent-pointer mapping with a self-loop at every root, and a size mapping, both sized
  to the number of elements; every element starts as a singleton of size 1.
\<close>

record UnionFind =
  parent :: "nat list"
  size_uf :: "nat list"

definition UnionFind_init :: "nat \<Rightarrow> UnionFind" where
  "UnionFind_init n = \<lparr>parent = [0..<n], size_uf = replicate n 1\<rparr>"

text \<open>
  Modelled from the spec: \<^verbatim>\<open>find(x)\<close> "returns the representative (root) of x's component;
  while walking from x to its root, rewrites every visited node's parent to point directly
  at the root (full path compression)". A walk that leaves the vector or never reaches a
  root has no result.
\<close>

partial_function (option) find_path :: "nat list \<Rightarrow> nat \<Rightarrow> (nat \<times> nat list) option" where
  "find_path par x =
     (if length par \<le> x then None
      else if par ! x = x then Some (x, par)
      else do { (r, par') \<leftarrow> find_path par (par ! x);
                Some (r, par'[x := r]) })"

definition find_uf :: "UnionFind \<Rightarrow> nat \<Rightarrow> (nat \<times> UnionFind) option" where
  "find_uf u x =
     (case find_path (parent u) x of
        None \<Rightarrow> None
      | Some (r, par') \<Rightarrow> Some (r, u\<lparr>parent := par'\<rparr>))"

text \<open>
  Modelled from the spec: \<^verbatim>\<open>unite(a, b)\<close> "finds roots of a and b; if equal, no-op;
  otherwise attaches the root with the smaller size as a child of the root with the larger
  size (ties broken arbitrarily but consistently), and the surviving root's size becomes
  the sum of both". On a tie the root of \<open>b\<close> goes under the root of \<open>a\<close>.
\<close>

definition link :: "UnionFind \<Rightarrow> nat \<Rightarrow> nat \<Rightarrow> UnionFind" where
  "link u c r =
     u\<lparr>parent := (parent u)[c := r],
       size_uf := (size_uf u)[r := size_uf u ! r + size_uf u ! c]\<rparr>"

definition unite :: "UnionFind \<Rightarrow> nat \<Rightarrow> nat \<Rightarrow> UnionFind option" where
  "unite u a b =
     (case find_uf u a of
        None \<Rightarrow> None
      | Some (ra, u1) \<Rightarrow>
          (case find_uf u1 b of
             None \<Rightarrow> None
           | Some (rb, u2) \<Rightarrow>
               if ra = rb then Some u2
               else if length (size_uf u2) \<le> ra \<or> length (size_uf u2) \<le> rb then None
               else if size_uf u2 ! ra < size_uf u2 ! rb then Some (link u2 ra rb)
               else Some (link u2 rb ra)))"

text \<open>Modelled from the spec: \<^verbatim>\<open>get_size(x)\<close> "returns the current size of the component
  containing x", the size stored at the root that \<^verbatim>\<open>find\<close> returns.\<close>

definition get_size :: "UnionFind \<Rightarrow> nat \<Rightarrow> (nat \<times> UnionFind) option" where
  "get_size u x =
     (case find_uf u x of
        None \<Rightarrow> None
      | Some (r, u1) \<Rightarrow> if length (size_uf u1) \<le> r then None else Some (size_uf u1 ! r, u1))"

text \<open>Modelled from the spec: \<^verbatim>\<open>Ncc(n)\<close> (the spec's \<^verbatim>\<open>count_components\<close>) "returns the
  number of distinct roots among the first n managed elements": a read-only count of the
  self-loops.\<close>

definition Ncc :: "UnionFind \<Rightarrow> nat \<Rightarrow> nat option" where
  "Ncc u n =
     (if length (parent u) < n then None
      else Some (length (filter (\<lambda>i. parent u ! i = i) [0..<n])))"

subsection \<open>The percolation engine\<close>

text \<open>The members of \<^verbatim>\<open>class SitePercolation\<close>. The constructor does not initialise
  \<^verbatim>\<open>p_c\<close>: it holds no value until the sweep assigns one.\<close>

record SitePercolation =
  uf :: UnionFind
  uf_aux :: UnionFind
  numNodos :: nat
  current_p :: double
  nodoActivo :: "bool list"
  superTop :: nat
  superBottom :: nat
  p_c :: "double option"

definition SitePercolation_init :: "nat \<Rightarrow> SitePercolation" where
  "SitePercolation_init n =
     \<lparr>uf = UnionFind_init n, uf_aux = UnionFind_init (n + 2), numNodos = n,
      current_p = Fin 0, nodoActivo = replicate n False,
      superTop = n, superBottom = n + 1, p_c = None\<rparr>"

text \<open>\<^verbatim>\<open>int grid_size = sqrt(numNodos)\<close>: the binary64 square root of an \<^verbatim>\<open>int\<close>, truncated.
  For every 32-bit \<open>N\<close> the correctly rounded root of \<open>N\<close> truncates to the integer square
  root, which is what the search below computes.\<close>

fun isqrt_from :: "nat \<Rightarrow> nat \<Rightarrow> nat" where
  "isqrt_from n 0 = 0"
| "isqrt_from n (Suc k) = (if Suc k * Suc k \<le> n then Suc k else isqrt_from n k)"

definition grid_size :: "nat \<Rightarrow> nat" where
  "grid_size n = isqrt_from n n"

fun supernodes_loop :: "nat \<Rightarrow> nat \<Rightarrow> nat \<Rightarrow> nat list \<Rightarrow> UnionFind \<Rightarrow> UnionFind option" where
  "supernodes_loop t b base [] a = Some a"
| "supernodes_loop t b base (i # is) a =
     do { a1 \<leftarrow> unite a t i;
          a2 \<leftarrow> unite a1 b (base + i);
          supernodes_loop t b base is a2 }"

definition initialize_supernodes :: "SitePercolation \<Rightarrow> SitePercolation option" where
  "initialize_supernodes s =
     do { a \<leftarrow> supernodes_loop (superTop s) (superBottom s)
                 (numNodos s - grid_size (numNodos s)) [0..<grid_size (numNodos s)] (uf_aux s);
          Some (s\<lparr>uf_aux := a\<rparr>) }"

text \<open>The activation loop of \<^verbatim>\<open>generate_single_percolation\<close>. The weight of a node is
  read only when the node is not active yet (\<^verbatim>\<open>&&\<close> short-circuits).\<close>

fun activate :: "double list \<Rightarrow> double \<Rightarrow> nat list \<Rightarrow> bool list \<Rightarrow> bool list option" where
  "activate configuracion p [] act = Some act"
| "activate configuracion p (i # is) act =
     (if length act \<le> i then None
      else if act ! i then activate configuracion p is act
      else if length configuracion \<le> i then None
      else if dle (configuracion ! i) p then activate configuracion p is (act[i := True])
      else activate configuracion p is act)"

text \<open>The edge loop. An edge counts when both ends are active; the two \<^verbatim>\<open>get_size\<close>
  calls are taken left to right.\<close>

fun connect_edges ::
  "(nat \<times> nat) list \<Rightarrow> bool list \<Rightarrow> UnionFind \<Rightarrow> UnionFind \<Rightarrow> int
     \<Rightarrow> (UnionFind \<times> UnionFind \<times> int) option" where
  "connect_edges [] act f a Smax = Some (f, a, Smax)"
| "connect_edges ((u, v) # es) act f a Smax =
     (if length act \<le> u then None
      else if \<not> act ! u then connect_edges es act f a Smax
      else if length act \<le> v then None
      else if \<not> act ! v then connect_edges es act f a Smax
      else do { f1 \<leftarrow> unite f u v;
                (s1, f2) \<leftarrow> get_size f1 u;
                (s2, f3) \<leftarrow> get_size f2 v;
                a1 \<leftarrow> unite a u v;
                connect_edges es act f3 a1 (max Smax (max (int s1) (int s2))) })"

definition order_error :: string where
  "order_error = ''Error: No se puede realizar una percolacion con un p menor que el actual.''"

text \<open>\<^verbatim>\<open>generate_single_percolation\<close> returns the component count, the new value of the
  caller's \<^verbatim>\<open>Smax\<close>, the engine and the lines written to \<^verbatim>\<open>cerr\<close>.\<close>

definition generate_single_percolation ::
  "SitePercolation \<Rightarrow> (nat \<times> nat) list \<Rightarrow> double list \<Rightarrow> double \<Rightarrow> int
     \<Rightarrow> (nat \<times> int \<times> SitePercolation \<times> string list) option" where
  "generate_single_percolation s aristas configuracion p Smax =
     (if dlt p (current_p s) then
        do { n \<leftarrow> Ncc (uf s) (numNodos s);
             Some (n, Smax, s, [order_error]) }
      else
        do { act \<leftarrow> activate configuracion p [0..<numNodos s] (nodoActivo s);
             (f, a, Smax') \<leftarrow> connect_edges aristas act (uf s) (uf_aux s) Smax;
             n \<leftarrow> Ncc f (numNodos s);
             Some (n, Smax', s\<lparr>uf := f, uf_aux := a, current_p := p, nodoActivo := act\<rparr>, []) })"

text \<open>\<^verbatim>\<open>has_percolation\<close>: two \<^verbatim>\<open>find\<close> calls on the boundary structure, left to right.\<close>

definition has_percolation :: "SitePercolation \<Rightarrow> (bool \<times> SitePercolation) option" where
  "has_percolation s =
     do { (t, a1) \<leftarrow> find_uf (uf_aux s) (superTop s);
          (b, a2) \<leftarrow> find_uf a1 (superBottom s);
          Some (t = b, s\<lparr>uf_aux := a2\<rparr>) }"

text \<open>\<^verbatim>\<open>generate_full_percolation\<close>. The local variables of the function and what it has
  written so far form the state of its loop: the two CSV files hold one data row per
  iteration under their header line when \<^verbatim>\<open>visualization\<close> is set and nothing otherwise,
  \<open>cout\<close> holds the value of \<open>p\<close> announced as the critical one.\<close>

record sweep_state =
  engine :: SitePercolation
  p_var :: double
  Smax_var :: int
  percolation :: bool
  resultados :: "(double \<times> nat \<times> int \<times> double) list"
  percolation_report :: "(double \<times> nat \<times> int \<times> double) list"
  cluster_of_each_node :: "(double \<times> nat list) list"
  cout :: "double list"
  cerr :: "string list"

fun cluster_row :: "nat list \<Rightarrow> UnionFind \<Rightarrow> (nat list \<times> UnionFind) option" where
  "cluster_row [] f = Some ([], f)"
| "cluster_row (i # is) f =
     do { (r, f1) \<leftarrow> find_uf f i;
          (rs, f2) \<leftarrow> cluster_row is f1;
          Some (r # rs, f2) }"

definition sweep_body ::
  "(nat \<times> nat) list \<Rightarrow> double list \<Rightarrow> bool \<Rightarrow> sweep_state \<Rightarrow> sweep_state option" where
  "sweep_body aristas configuracion visualization st =
     do { (n, Smax', s1, errs) \<leftarrow>
            generate_single_percolation (engine st) aristas configuracion (p_var st) (Smax_var st);
          let row = (p_var st, n, Smax',
                     ddiv (double_of_int Smax') (double_of_int (int (numNodos s1))));
          (rows, clusters, s2) \<leftarrow>
            (if visualization then
               do { (rs, f) \<leftarrow> cluster_row [0..<numNodos s1] (uf s1);
                    Some (percolation_report st @ [row],
                          cluster_of_each_node st @ [(p_var st, rs)], s1\<lparr>uf := f\<rparr>) }
             else Some (percolation_report st, cluster_of_each_node st, s1));
          (perc, out, s3) \<leftarrow>
            (if \<not> percolation st then
               do { (b, s') \<leftarrow> has_percolation s2;
                    if b then Some (True, cout st @ [p_var st], s'\<lparr>p_c := Some (p_var st)\<rparr>)
                    else Some (False, cout st, s') }
             else Some (True, cout st, s2));
          Some (st\<lparr>engine := s3, Smax_var := Smax', percolation := perc,
                    resultados := resultados st @ [row], percolation_report := rows,
                    cluster_of_each_node := clusters, cout := out, cerr := cerr st @ errs\<rparr>) }"

partial_function (option) sweep_loop ::
  "(nat \<times> nat) list \<Rightarrow> double list \<Rightarrow> double \<Rightarrow> bool \<Rightarrow> sweep_state \<Rightarrow> sweep_state option" where
  "sweep_loop aristas configuracion step visualization st =
     (if dle (p_var st) sweep_bound then
        do { st' \<leftarrow> sweep_body aristas configuracion visualization st;
             sweep_loop aristas configuracion step visualization
               (st'\<lparr>p_var := dadd (p_var st') step\<rparr>) }
      else Some st)"

definition sweep_start :: "SitePercolation \<Rightarrow> sweep_state" where
  "sweep_start s =
     \<lparr>engine = s, p_var = Fin 0, Smax_var = 1, percolation = False, resultados = [],
      percolation_report = [], cluster_of_each_node = [], cout = [], cerr = []\<rparr>"

text \<open>The value the function returns is \<open>resultados\<close> of the final state; the engine and
  the outputs are kept next to it.\<close>

definition generate_full_percolation ::
  "SitePercolation \<Rightarrow> (nat \<times> nat) list \<Rightarrow> double list \<Rightarrow> double \<Rightarrow> bool \<Rightarrow> sweep_state option" where
  "generate_full_percolation s aristas configuracion step visualization =
     do { s1 \<leftarrow> initialize_supernodes s;
          sweep_loop aristas configuracion step visualization (sweep_start s1) }"

subsection \<open>Representatives and well-formed states\<close>

text \<open>\<open>rep par x r\<close>: the walk along the parent pointers from \<open>x\<close> stays inside the vector
  and ends in the root \<open>r\<close>. \<open>root_of\<close> computes it.\<close>

inductive rep :: "nat list \<Rightarrow> nat \<Rightarrow> nat \<Rightarrow> bool" for par :: "nat list" where
  rep_root: "x < length par \<Longrightarrow> par ! x = x \<Longrightarrow> rep par x x"
| rep_step: "x < length par \<Longrightarrow> par ! x \<noteq> x \<Longrightarrow> rep par (par ! x) r \<Longrightarrow> rep par x r"

partial_function (option) root_of :: "nat list \<Rightarrow> nat \<Rightarrow> nat option" where
  "root_of par x =
     (if length par \<le> x then None
      else if par ! x = x then Some x
      else root_of par (par ! x))"

declare find_path.simps [code]
declare root_of.simps [code]
declare sweep_loop.simps [code]

text \<open>The vector of representatives, as the sink prints it.\<close>

definition roots :: "UnionFind \<Rightarrow> nat option list" where
  "roots u = map (root_of (parent u)) [0..<length (parent u)]"

text \<open>A disjoint-set structure is well formed when both vectors have one length and
  every element has a representative. The engine is well formed when its two
  structures are and the sizes fit the constructor's.\<close>

definition uf_wf :: "UnionFind \<Rightarrow> bool" where
  "uf_wf u \<longleftrightarrow>
     length (size_uf u) = length (parent u) \<and> list_all (\<lambda>r. r \<noteq> None) (roots u)"

definition engine_wf :: "SitePercolation \<Rightarrow> bool" where
  "engine_wf s \<longleftrightarrow>
     uf_wf (uf s) \<and> uf_wf (uf_aux s) \<and>
     length (parent (uf s)) = numNodos s \<and> length (parent (uf_aux s)) = numNodos s + 2 \<and>
     length (nodoActivo s) = numNodos s \<and>
     superTop s = numNodos s \<and> superBottom s = numNodos s + 1"

text \<open>The inputs the interface asks for: edges over \<open>[0, N)\<close>, one weight per node.\<close>

definition inputs_ok :: "SitePercolation \<Rightarrow> (nat \<times> nat) list \<Rightarrow> double list \<Rightarrow> bool" where
  "inputs_ok s aristas configuracion \<longleftrightarrow>
     list_all (\<lambda>(u, v). u < numNodos s \<and> v < numNodos s) aristas \<and>
     length configuracion = numNodos s"

text \<open>What the operations depend on: the representative of every element and the size
  vector. Path compression changes the parent vector and leaves this view alone;
  \<open>unite_view\<close> and \<open>get_size_view\<close> are \<^verbatim>\<open>unite\<close> and \<^verbatim>\<open>get_size\<close> on it.\<close>

type_synonym view = "(nat \<Rightarrow> nat option) \<times> nat list"

definition view :: "UnionFind \<Rightarrow> view" where
  "view u = (root_of (parent u), size_uf u)"

definition merged :: "(nat \<Rightarrow> nat option) \<Rightarrow> nat \<Rightarrow> nat \<Rightarrow> nat \<Rightarrow> nat option" where
  "merged R c r = (\<lambda>j. map_option (\<lambda>y. if y = c then r else y) (R j))"

definition unite_view :: "view \<Rightarrow> nat \<Rightarrow> nat \<Rightarrow> view option" where
  "unite_view w a b =
     (case fst w a of
        None \<Rightarrow> None
      | Some ra \<Rightarrow>
          (case fst w b of
             None \<Rightarrow> None
           | Some rb \<Rightarrow>
               if ra = rb then Some w
               else if length (snd w) \<le> ra \<or> length (snd w) \<le> rb then None
               else if snd w ! ra < snd w ! rb
                 then Some (merged (fst w) ra rb, (snd w)[rb := snd w ! rb + snd w ! ra])
                 else Some (merged (fst w) rb ra, (snd w)[ra := snd w ! ra + snd w ! rb])))"

definition get_size_view :: "view \<Rightarrow> nat \<Rightarrow> nat option" where
  "get_size_view w x =
     (case fst w x of None \<Rightarrow> None
      | Some r \<Rightarrow> if length (snd w) \<le> r then None else Some (snd w ! r))"

text \<open>\<open>later u u'\<close>: \<open>u'\<close> can be reached from \<open>u\<close> by the operations. Nothing is ever split,
  no element loses its representative, no new root appears.\<close>

definition later :: "UnionFind \<Rightarrow> UnionFind \<Rightarrow> bool" where
  "later u u' \<longleftrightarrow>
     length (parent u') = length (parent u) \<and> length (size_uf u') = length (size_uf u) \<and>
     (\<forall>i j. fst (view u) i = fst (view u) j \<longrightarrow> fst (view u') i = fst (view u') j) \<and>
     (\<forall>i. fst (view u') i = None \<longleftrightarrow> fst (view u) i = None) \<and>
     (\<forall>i. fst (view u') i = Some i \<longrightarrow> fst (view u) i = Some i)"

text \<open>An edge is settled when the edge loop has nothing left to do for it: it is in range
  and, if both ends are active, they share a representative in both structures and the
  size at the primary root is accounted for in \<open>Smax\<close>.\<close>

definition settled :: "bool list \<Rightarrow> UnionFind \<Rightarrow> UnionFind \<Rightarrow> int \<Rightarrow> nat \<times> nat \<Rightarrow> bool" where
  "settled act f a S e \<longleftrightarrow>
     fst e < length act \<and>
     (act ! fst e \<longrightarrow> snd e < length act \<and>
       (act ! snd e \<longrightarrow>
          (\<exists>r. fst (view f) (fst e) = Some r \<and> fst (view f) (snd e) = Some r \<and>
               r < length (snd (view f)) \<and> int (snd (view f) ! r) \<le> S) \<and>
          (\<exists>r. fst (view a) (fst e) = Some r \<and> fst (view a) (snd e) = Some r)))"

text \<open>The answer \<^verbatim>\<open>has_percolation\<close> gives on an engine.\<close>

definition percolates :: "SitePercolation \<Rightarrow> bool" where
  "percolates s = (case has_percolation s of None \<Rightarrow> False | Some (b, s') \<Rightarrow> b)"

text \<open>\<open>sweep_iter k\<close>: the loop state after \<open>k\<close> passes through the body of the sweep, each
  followed by \<open>p += step\<close>, whatever the loop condition says.\<close>

fun sweep_iter ::
  "nat \<Rightarrow> (nat \<times> nat) list \<Rightarrow> double list \<Rightarrow> double \<Rightarrow> bool \<Rightarrow> sweep_state \<Rightarrow> sweep_state option" where
  "sweep_iter 0 aristas configuracion step visualization st = Some st"
| "sweep_iter (Suc k) aristas configuracion step visualization st =
     do { st1 \<leftarrow> sweep_iter k aristas configuracion step visualization st;
          st2 \<leftarrow> sweep_body aristas configuracion visualization st1;
          Some (st2\<lparr>p_var := dadd (p_var st2) step\<rparr>) }"

text \<open>Two engines that agree on everything but the parent pointers of the primary
  structure, where they still give every node the same representative; two loop states
  that agree up to that and up to what was written to the files.\<close>

definition same_engine_up_to_paths :: "SitePercolation \<Rightarrow> SitePercolation \<Rightarrow> bool" where
  "same_engine_up_to_paths s t \<longleftrightarrow>
     roots (uf s) = roots (uf t) \<and> size_uf (uf s) = size_uf (uf t) \<and>
     uf_aux s = uf_aux t \<and> numNodos s = numNodos t \<and> current_p s = current_p t \<and>
     nodoActivo s = nodoActivo t \<and> superTop s = superTop t \<and> superBottom s = superBottom t \<and>
     p_c s = p_c t"

definition same_up_to_sink :: "sweep_state \<Rightarrow> sweep_state \<Rightarrow> bool" where
  "same_up_to_sink a b \<longleftrightarrow>
     same_engine_up_to_paths (engine a) (engine b) \<and> p_var a = p_var b \<and>
     Smax_var a = Smax_var b \<and> percolation a = percolation b \<and>
     resultados a = resultados b \<and> cout a = cout b \<and> cerr a = cerr b"

subsection \<open>What a structure joins\<close>

text \<open>\<open>same_set u\<close>: the pairs of elements of \<open>u\<close> that have the same representative.
  \<open>wiring n\<close>: the pairs that the loop of \<^verbatim>\<open>initialize_supernodes\<close> passes to \<^verbatim>\<open>unite\<close> on
  \<open>n\<close> nodes, \<open>(n, i)\<close> and \<open>(n + 1, n - grid_size n + i)\<close> for \<open>i < grid_size n\<close>.
  \<open>wired n\<close>: the classes that the interface describes for the boundary structure, the top
  terminal with the first \<open>grid_size n\<close> nodes, the bottom terminal with the last
  \<open>grid_size n\<close> nodes, every other element alone. \<open>joined_by X u u'\<close>: \<open>u'\<close> joins what
  \<open>u\<close> joins and some pairs of \<open>X\<close>, with what follows by symmetry and transitivity, and
  nothing else.\<close>

definition same_set :: "UnionFind \<Rightarrow> (nat \<times> nat) set" where
  "same_set u =
     {(x, y). root_of (parent u) x \<noteq> None \<and> root_of (parent u) x = root_of (parent u) y}"

definition wiring :: "nat \<Rightarrow> (nat \<times> nat) set" where
  "wiring n =
     {(n, i) | i. i < grid_size n} \<union> {(n + 1, n - grid_size n + i) | i. i < grid_size n}"

definition wired :: "nat \<Rightarrow> (nat \<times> nat) set" where
  "wired n = {(x, y). x < n + 2 \<and> y < n + 2 \<and>
     (x = y \<or>
      x \<in> insert n {0..<grid_size n} \<and> y \<in> insert n {0..<grid_size n} \<or>
      x \<in> insert (n + 1) {n - grid_size n..<n} \<and> y \<in> insert (n + 1) {n - grid_size n..<n})}"

definition joined_by :: "(nat \<times> nat) set \<Rightarrow> UnionFind \<Rightarrow> UnionFind \<Rightarrow> bool" where
  "joined_by X u u' \<longleftrightarrow> (\<exists>E\<subseteq>X. same_set u' = (same_set u \<union> E \<union> E\<inverse>)\<^sup>+)"
section \<open>Properties of the disjoint-set structure\<close>

lemma rep_in_range: "rep par x r \<Longrightarrow> x < length par \<and> r < length par \<and> par ! r = r"
  by (induction rule: rep.induct) auto

lemma rep_fun: "rep par x r \<Longrightarrow> rep par x r' \<Longrightarrow> r = r'"
  proof (induction arbitrary: r' rule: rep.induct)
  case (rep_root x)
  then show ?case by (auto elim: rep.cases)
next
  case (rep_step x r)
  from rep_step.prems rep_step.hyps show ?case by (auto elim: rep.cases intro: rep_step.IH)
qed

lemma rep_self_iff: "rep par x x \<longleftrightarrow> x < length par \<and> par ! x = x"
  using rep_in_range rep_root by blast

lemma rep_of_root: "rep par x r \<Longrightarrow> rep par r r"
  using rep_in_range rep_root by blast

lemma rep_parent: "rep par x r \<Longrightarrow> rep par (par ! x) r"
  by (induction rule: rep.induct) (auto intro: rep.intros)

lemma rep_unfold:
  "rep par x r \<longleftrightarrow> x < length par \<and> (if par ! x = x then r = x else rep par (par ! x) r)"
  by (auto intro: rep.intros elim: rep.cases)

lemma root_of_rep: 
  assumes "root_of par x = Some r" shows "rep par x r"
proof (rule root_of.raw_induct[where P = rep and xa = "(par, x)" and y = r, simplified])
  show "root_of par x = Some r" by (rule assms)
next
  fix f :: "nat list \<Rightarrow> nat \<Rightarrow> nat option" and p a y
  assume ih: "\<And>q b z. f q b = Some z \<Longrightarrow> rep q b z"
    and body: "(if length p \<le> a then None else if p ! a = a then Some a else f p (p ! a)) = Some y"
  show "rep p a y"
  proof (cases "p ! a = a")
    case True
    with body show ?thesis by (auto split: if_splits intro: rep_root)
  next
    case False
    with body have "a < length p" "f p (p ! a) = Some y" by (auto split: if_splits)
    with False ih show ?thesis by (auto intro: rep_step)
  qed
qed

lemma rep_root_of: "rep par x r \<Longrightarrow> root_of par x = Some r"
proof (induction rule: rep.induct)
  case (rep_root x)
  then show ?case by (subst root_of.simps) simp
next
  case (rep_step x r)
  then show ?case by (subst root_of.simps) simp
qed

lemma root_of_Some_iff: "root_of par x = Some r \<longleftrightarrow> rep par x r"
  using root_of_rep rep_root_of by blast

text \<open>Redirecting one element to its own root keeps every representative.\<close>

lemma rep_compress_fwd:
  assumes x: "rep par x r"
  shows "rep par j y \<Longrightarrow> rep (par[x := r]) j y"
proof (induction rule: rep.induct)
  case (rep_root j)
  have "par[x := r] ! j = j"
  proof (cases "j = x")
    case True
    with rep_root x have "r = j" using rep_fun rep.rep_root by blast 
    with True rep_root show ?thesis by simp
  next
    case False
    with rep_root show ?thesis by simp
  qed
  with rep_root show ?case by (simp add: rep.rep_root)
next
  case (rep_step j y)
  show ?case
  proof (cases "j = x")
    case True
    have "rep par j y" using rep_step.hyps by (auto intro: rep.rep_step)
    with True x have ry: "y = r" using rep_fun by blast
    have rr: "r < length par" "par ! r = r" using x rep_in_range by blast+
    with rep_step.hyps True have "r \<noteq> x" by auto
    with rr have "rep (par[x := r]) r r" by (simp add: rep_self_iff)
    moreover have "par[x := r] ! x = r" "x < length (par[x := r])" using rep_step.hyps True by auto
    ultimately show ?thesis using True ry \<open>r \<noteq> x\<close>
      by (metis rep.rep_step)
  next
    case False
    with rep_step show ?thesis by (auto intro: rep.rep_step)
  qed
qed


lemma rep_compress_bwd:
  assumes x: "rep par x r"
  shows "rep (par[x := r]) j y \<Longrightarrow> rep par j y"
proof (induction rule: rep.induct)
  case (rep_root j)
  show ?case
  proof (cases "j = x")
    case True
    with rep_root have "r = x" by simp
    with x True show ?thesis by simp
  next
    case False
    with rep_root show ?thesis by (simp add: rep_self_iff)
  qed
next
  case (rep_step j y)
  show ?case
  proof (cases "j = x")
    case True
    with rep_step.hyps have "par[x := r] ! j = r" by simp
    with rep_step.IH have "rep par r y" by simp
    moreover have "rep par r r" using x by (rule rep_of_root)
    ultimately have "y = r" using rep_fun by blast
    with True x show ?thesis by simp
  next
    case False
    with rep_step.hyps have "par ! j \<noteq> j" "j < length par" "par[x := r] ! j = par ! j" by auto
    with rep_step.IH show ?thesis by (auto intro: rep.rep_step)
  qed
qed

lemma root_of_eqI:
  assumes "\<And>j y. rep p j y \<longleftrightarrow> rep q j y"
  shows "root_of p = root_of q"
proof
  fix j
  show "root_of p j = root_of q j"
  proof (cases "root_of q j")
    case None
    then show ?thesis using assms root_of_Some_iff by (metis not_Some_eq)
  next
    case (Some y)
    then show ?thesis using assms root_of_Some_iff by metis
  qed
qed

lemma root_of_compress:
  assumes "root_of par x = Some r"
  shows "root_of (par[x := r]) = root_of par"
  using assms rep_compress_fwd rep_compress_bwd root_of_Some_iff
  by (intro root_of_eqI) blast

lemma find_path_sound_aux:
  "find_path par x = Some res \<Longrightarrow>
     root_of par x = Some (fst res) \<and> length (snd res) = length par \<and> root_of (snd res) = root_of par"
proof (induction rule: find_path.raw_induct[where xa = "(par, x)", unfolded prod.case, rotated, consumes 1])
  case (1 f p a res)
  show ?case
  proof (cases "p ! a = a")
    case True
    with 1(2) have "a < length p" "res = (a, p)" by (auto split: if_splits)
    with True show ?thesis by (simp add: root_of_Some_iff rep_self_iff)
  next
    case False
    with 1(2) obtain y q0 where a: "a < length p" and f: "f p (p ! a) = Some (y, q0)"
      and q: "res = (y, q0[a := y])"
      by (auto split: if_splits simp: bind_eq_Some_conv)
    from 1(1)[OF f] have r0: "root_of p (p ! a) = Some y" and l0: "length q0 = length p"
      and e0: "root_of q0 = root_of p" by auto
    from r0 a False have ra: "root_of p a = Some y"
      by (auto simp: root_of_Some_iff intro: rep_step)
    with e0 have "root_of q0 a = Some y" by simp
    then have "root_of (q0[a := y]) = root_of q0" by (rule root_of_compress)
    with ra l0 e0 q show ?thesis by simp
  qed
qed

lemma find_path_total:
  "rep par x r \<Longrightarrow> \<exists>par'. find_path par x = Some (r, par')"
proof (induction rule: rep.induct)
  case (rep_root x)
  then show ?case by (subst find_path.simps) simp
next
  case (rep_step x r)
  then obtain q where "find_path par (par ! x) = Some (r, q)" by blast
  with rep_step.hyps show ?case by (subst find_path.simps) simp
qed

lemma root_of_out: "length par \<le> x \<Longrightarrow> root_of par x = None"
  by (subst root_of.simps) simp

lemma root_of_idem: "root_of par x = Some r \<Longrightarrow> root_of par r = Some r"
  using rep_of_root root_of_Some_iff by simp

lemma root_of_less: "root_of par x = Some r \<Longrightarrow> x < length par \<and> r < length par"
  using rep_in_range root_of_Some_iff by blast

lemma root_of_self_iff: "root_of par x = Some x \<longleftrightarrow> x < length par \<and> par ! x = x"
  by (simp add: root_of_Some_iff rep_self_iff)

lemma roots_length [simp]: "length (roots u) = length (parent u)"
  by (simp add: roots_def)

lemma roots_nth [simp]: "x < length (parent u) \<Longrightarrow> roots u ! x = root_of (parent u) x"
  by (simp add: roots_def)

lemma roots_eq_iff:
  "roots u = roots u' \<longleftrightarrow>
     length (parent u) = length (parent u') \<and> root_of (parent u) = root_of (parent u')"
proof
  assume e: "roots u = roots u'"
  then have l: "length (parent u) = length (parent u')"
    by (metis roots_length)
  have "root_of (parent u) x = root_of (parent u') x" for x
  proof (cases "x < length (parent u)")
    case True
    with e l show ?thesis by (metis roots_nth)
  next
    case False
    with l show ?thesis by (simp add: root_of_out)
  qed
  with l show "length (parent u) = length (parent u') \<and> root_of (parent u) = root_of (parent u')"
    by auto
next
  assume "length (parent u) = length (parent u') \<and> root_of (parent u) = root_of (parent u')"
  then show "roots u = roots u'" by (simp add: roots_def)
qed

lemma find_uf_Some:
  assumes "find_uf u x = Some (r, u')"
  shows "root_of (parent u) x = Some r" "root_of (parent u') = root_of (parent u)"
    "length (parent u') = length (parent u)" "size_uf u' = size_uf u"
  using assms find_path_sound_aux[of "parent u" x]
  by (auto simp: find_uf_def split: option.splits)

lemma find_uf_total:
  assumes "root_of (parent u) x = Some r"
  shows "\<exists>u'. find_uf u x = Some (r, u')"
  using find_path_total[of "parent u" x r] assms
  by (auto simp: find_uf_def root_of_Some_iff)

text \<open>Hanging the root \<open>c\<close> under another root \<open>r\<close>.\<close>

lemma rep_link_fwd:
  assumes c: "rep par c c" and r: "rep par r r" and ne: "c \<noteq> r"
  shows "rep par j y \<Longrightarrow> rep (par[c := r]) j (if y = c then r else y)"
proof (induction rule: rep.induct)
  case (rep_root j)
  show ?case
  proof (cases "j = c")
    case True
    from r ne have "rep (par[c := r]) r r" by (simp add: rep_self_iff)
    moreover from rep_root True ne have "par[c := r] ! c = r" "c < length (par[c := r])" "par[c := r] ! c \<noteq> c"
      by auto
    ultimately have "rep (par[c := r]) c r" by (metis rep.rep_step)
    with True show ?thesis by simp
  next
    case False
    with rep_root show ?thesis by (simp add: rep_self_iff)
  qed
next
  case (rep_step j y)
  from rep_step.hyps c have "j \<noteq> c" by (auto simp: rep_self_iff)
  with rep_step.hyps have "j < length (par[c := r])" "par[c := r] ! j = par ! j" by auto
  with rep_step show ?case by (metis rep.rep_step)
qed

lemma rep_link_bwd:
  assumes c: "rep par c c" and r: "rep par r r" and ne: "c \<noteq> r"
  shows "rep (par[c := r]) j z \<Longrightarrow> \<exists>y. rep par j y \<and> z = (if y = c then r else y)"
proof (induction rule: rep.induct)
  case (rep_root j)
  from c ne have "par[c := r] ! c = r" by (simp add: rep_self_iff)
  with rep_root ne have "j \<noteq> c" by auto
  with rep_root have "rep par j j" by (simp add: rep_self_iff)
  with \<open>j \<noteq> c\<close> show ?case by auto
next
  case (rep_step j z)
  show ?case
  proof (cases "j = c")
    case True
    with rep_step.hyps c have "par[c := r] ! j = r" by (simp add: rep_self_iff)
    with rep_step.IH obtain y where "rep par r y" "z = (if y = c then r else y)" by auto
    with r ne have "z = r" using rep_fun by fastforce
    with True c show ?thesis by auto
  next
    case False
    with rep_step.hyps have "par ! j \<noteq> j" "j < length par" "par[c := r] ! j = par ! j" by auto
    with rep_step.IH show ?thesis by (metis rep.rep_step)
  qed
qed

lemma root_of_link:
  assumes "root_of par c = Some c" "root_of par r = Some r" "c \<noteq> r"
  shows "root_of (par[c := r]) j = map_option (\<lambda>y. if y = c then r else y) (root_of par j)"
proof (cases "root_of par j")
  case None
  have "root_of (par[c := r]) j = None"
  proof (rule ccontr)
    assume "root_of (par[c := r]) j \<noteq> None"
    then obtain z where "rep (par[c := r]) j z" by (auto simp: root_of_Some_iff)
    with rep_link_bwd[of par c r j z] assms obtain y where "rep par j y"
      by (auto simp: root_of_Some_iff)
    with None show False by (simp flip: root_of_Some_iff)
  qed
  with None show ?thesis by simp
next
  case (Some y)
  with rep_link_fwd[of par c r j y] assms
  have "rep (par[c := r]) j (if y = c then r else y)" by (simp add: root_of_Some_iff)
  then have "root_of (par[c := r]) j = Some (if y = c then r else y)"
    by (simp only: root_of_Some_iff)
  with Some show ?thesis by simp
qed

lemma view_link:
  assumes "root_of (parent u) c = Some c" "root_of (parent u) r = Some r" "c \<noteq> r"
  shows "view (link u c r) = (merged (root_of (parent u)) c r,
           (size_uf u)[r := size_uf u ! r + size_uf u ! c])"
  using root_of_link[OF assms] by (auto simp: view_def link_def merged_def)

lemma find_uf_view:
  "find_uf u x = Some (r, u') \<Longrightarrow> view u' = view u"
  by (auto simp: view_def dest: find_uf_Some)

lemma find_uf_cases:
  obtains (none) "root_of (parent u) x = None" "find_uf u x = None"
  | (some) r u' where "root_of (parent u) x = Some r" "find_uf u x = Some (r, u')"
      "view u' = view u" "length (parent u') = length (parent u)"
proof (cases "root_of (parent u) x")
  case None
  then have "find_uf u x = None"
    by (cases "find_uf u x") (auto dest: find_uf_Some)
  with None show ?thesis by (rule none)
next
  case (Some r)
  then obtain u' where f: "find_uf u x = Some (r, u')" using find_uf_total by blast
  from f have "view u' = view u" "length (parent u') = length (parent u)"
    by (auto dest: find_uf_view find_uf_Some(3))
  with Some f show ?thesis by (rule some)
qed

lemma unite_refines: "map_option view (unite u a b) = unite_view (view u) a b"
proof (cases u a rule: find_uf_cases)
  case none
  then show ?thesis by (simp add: unite_def unite_view_def view_def)
next
  case (some ra u1)
  note a = some
  show ?thesis
  proof (cases u1 b rule: find_uf_cases)
    case none
    with a show ?thesis by (simp add: unite_def unite_view_def view_def)
  next
    case (some rb u2)
    from a some have v: "view u2 = view u" by simp
    then have R: "root_of (parent u2) = root_of (parent u)" and S: "size_uf u2 = size_uf u"
      by (simp_all add: view_def)
    from a some R have ra: "root_of (parent u2) ra = Some ra" and rb: "root_of (parent u2) rb = Some rb"
      and Rb: "root_of (parent u) b = Some rb"
      using root_of_idem by (auto simp: view_def)
    show ?thesis
    proof (cases "ra = rb")
      case True
      with a some v Rb show ?thesis by (simp add: unite_def unite_view_def view_def)
    next
      case False
      have l1: "view (link u2 ra rb) = (merged (root_of (parent u)) ra rb,
           (size_uf u)[rb := size_uf u ! rb + size_uf u ! ra])"
        using view_link[OF ra rb False] R S by simp
      have l2: "view (link u2 rb ra) = (merged (root_of (parent u)) rb ra,
           (size_uf u)[ra := size_uf u ! ra + size_uf u ! rb])"
        using view_link[OF rb ra] False R S by simp
      from a some False Rb l1 l2 S show ?thesis
        by (simp add: unite_def unite_view_def) (simp add: view_def)
    qed
  qed
qed

lemma unite_length:
  assumes "unite u a b = Some u'"
  shows "length (parent u') = length (parent u)" "length (size_uf u') = length (size_uf u)"
proof -
  from assms obtain ra u1 rb u2 where f1: "find_uf u a = Some (ra, u1)"
    and f2: "find_uf u1 b = Some (rb, u2)"
    and u': "u' = u2 \<or> u' = link u2 ra rb \<or> u' = link u2 rb ra"
    by (auto simp: unite_def split: option.splits if_splits)
  from find_uf_Some(3,4)[OF f1] find_uf_Some(3,4)[OF f2]
  have "length (parent u2) = length (parent u)" "size_uf u2 = size_uf u" by simp_all
  with u' show "length (parent u') = length (parent u)" "length (size_uf u') = length (size_uf u)"
    by (auto simp: link_def)
qed

lemma get_size_refines: "map_option fst (get_size u x) = get_size_view (view u) x"
  by (cases u x rule: find_uf_cases) (auto simp: get_size_def get_size_view_def view_def)

lemma get_size_view_same: "get_size u x = Some (n, u') \<Longrightarrow> view u' = view u"
  by (auto simp: get_size_def split: option.splits if_splits dest: find_uf_view)

lemma get_size_length: "get_size u x = Some (n, u') \<Longrightarrow> length (parent u') = length (parent u)"
  by (auto simp: get_size_def split: option.splits if_splits dest: find_uf_Some)

lemma Ncc_view:
  "Ncc u n = (if length (parent u) < n then None
              else Some (length (filter (\<lambda>i. fst (view u) i = Some i) [0..<n])))"
proof -
  have "filter (\<lambda>i. parent u ! i = i) [0..<n] = filter (\<lambda>i. fst (view u) i = Some i) [0..<n]"
    if "n \<le> length (parent u)"
    using that by (intro filter_cong) (auto simp: view_def root_of_self_iff)
  then show ?thesis by (auto simp: Ncc_def)
qed

lemma view_idem: "fst (view u) x = Some r \<Longrightarrow> fst (view u) r = Some r"
  by (auto simp: view_def dest: root_of_idem)

lemma view_less: "fst (view u) x = Some r \<Longrightarrow> x < length (parent u) \<and> r < length (parent u)"
  by (auto simp: view_def dest: root_of_less)

lemma unite_cases [consumes 1, case_names same merge]:
  assumes "unite u a b = Some u'"
  obtains (same) ra where "fst (view u) a = Some ra" "fst (view u) b = Some ra" "view u' = view u"
  | (merge) c r where "fst (view u) c = Some c" "fst (view u) r = Some r" "c \<noteq> r"
      "(fst (view u) a = Some c \<and> fst (view u) b = Some r) \<or>
       (fst (view u) a = Some r \<and> fst (view u) b = Some c)"
      "r < length (snd (view u))" "c < length (snd (view u))"
      "view u' = (merged (fst (view u)) c r, (snd (view u))[r := snd (view u) ! r + snd (view u) ! c])"
proof -
  from assms have v: "unite_view (view u) a b = Some (view u')"
    using unite_refines[of u a b] by simp
  then obtain ra rb where ra: "fst (view u) a = Some ra" and rb: "fst (view u) b = Some rb"
    by (auto simp: unite_view_def split: option.splits)
  have ia: "fst (view u) ra = Some ra" and ib: "fst (view u) rb = Some rb"
    using ra rb view_idem by blast+
  show thesis
  proof (cases "ra = rb")
    case True
    with v ra rb show ?thesis by (intro same[of ra]) (auto simp: unite_view_def)
  next
    case False
    show ?thesis
    proof (cases "snd (view u) ! ra < snd (view u) ! rb")
      case True
      with v ra rb False ia ib show ?thesis
        by (intro merge[of ra rb]) (auto simp: unite_view_def split: if_splits)
    next
      case lt: False
      with v ra rb False ia ib show ?thesis
        by (intro merge[of rb ra]) (auto simp: unite_view_def add.commute split: if_splits)
    qed
  qed
qed

lemma unite_conn_mono:
  assumes "unite u a b = Some u'" "fst (view u) i = fst (view u) j"
  shows "fst (view u') i = fst (view u') j"
  using assms by (cases rule: unite_cases) (auto simp: merged_def)

lemma unite_None_iff:
  assumes "unite u a b = Some u'"
  shows "fst (view u') i = None \<longleftrightarrow> fst (view u) i = None"
  using assms by (cases rule: unite_cases) (auto simp: merged_def)

lemma unite_joins:
  assumes "unite u a b = Some u'"
  shows "fst (view u') a = fst (view u') b \<and> fst (view u') a \<noteq> None"
  using assms
proof (cases rule: unite_cases)
  case (same ra)
  then show ?thesis by simp
next
  case (merge c r)
  then show ?thesis by (auto simp: merged_def)
qed

lemma unite_roots_subset:
  assumes "unite u a b = Some u'" "fst (view u') i = Some i"
  shows "fst (view u) i = Some i"
  using assms
proof (cases rule: unite_cases)
  case (same ra)
  with assms show ?thesis by simp
next
  case (merge c r)
  with assms(2) obtain y where y: "fst (view u) i = Some y" "i = (if y = c then r else y)"
    by (auto simp: merged_def)
  with merge show ?thesis by (auto split: if_splits)
qed

lemma unite_noop:
  assumes "fst (view u) a = Some r" "fst (view u) b = Some r"
  shows "\<exists>u'. unite u a b = Some u' \<and> view u' = view u"
proof -
  from assms have "unite_view (view u) a b = Some (view u)"
    by (simp add: unite_view_def)
  then show ?thesis using unite_refines[of u a b] by (cases "unite u a b") auto
qed

lemma unite_total:
  assumes "fst (view u) a \<noteq> None" "fst (view u) b \<noteq> None"
    "length (size_uf u) = length (parent u)"
  shows "unite u a b \<noteq> None"
proof -
  from assms obtain ra rb where r: "fst (view u) a = Some ra" "fst (view u) b = Some rb" by auto
  then have "ra < length (snd (view u))" "rb < length (snd (view u))"
    using view_less[of u] assms(3) by (auto simp: view_def)
  with r have "unite_view (view u) a b \<noteq> None"
    by (auto simp: unite_view_def)
  then show ?thesis using unite_refines[of u a b] by (cases "unite u a b") auto
qed

lemma unite_size:
  assumes "unite u a b = Some u'" "fst (view u) x = Some r0"
  shows "\<exists>r'. fst (view u') x = Some r' \<and>
           (snd (view u') ! r' = snd (view u) ! r0 \<or> fst (view u') x = fst (view u') a)"
  using assms(1)
proof (cases rule: unite_cases)
  case (same ra)
  with assms show ?thesis by simp
next
  case (merge c r)
  note ab = merge(4)
  show ?thesis
  proof (cases "r0 = c \<or> r0 = r")
    case True
    with merge assms(2) ab show ?thesis by (auto simp: merged_def)
  next
    case False
    with merge assms(2) show ?thesis by (auto simp: merged_def)
  qed
qed

lemma uf_wf_view:
  "uf_wf u \<longleftrightarrow> length (size_uf u) = length (parent u) \<and>
     (\<forall>i<length (parent u). fst (view u) i \<noteq> None)"
  by (auto simp: uf_wf_def list_all_iff roots_def view_def)

lemma unite_wf:
  assumes "unite u a b = Some u'" "uf_wf u"
  shows "uf_wf u'"
  using assms unite_length[OF assms(1)] unite_None_iff[OF assms(1)]
  by (simp add: uf_wf_view)

lemma unite_wf_total:
  assumes "uf_wf u" "a < length (parent u)" "b < length (parent u)"
  shows "\<exists>u'. unite u a b = Some u'"
  using unite_total[of u a b] assms by (auto simp: uf_wf_view)

lemma find_uf_wf:
  assumes "find_uf u x = Some (r, u')" "uf_wf u"
  shows "uf_wf u'"
  using assms find_uf_Some[OF assms(1)] find_uf_view[OF assms(1)]
  by (simp add: uf_wf_view)

lemma get_size_wf:
  assumes "get_size u x = Some (n, u')" "uf_wf u"
  shows "uf_wf u'"
  using assms by (auto simp: get_size_def split: option.splits if_splits dest: find_uf_wf)

lemma get_size_wf_total:
  assumes "uf_wf u" "x < length (parent u)"
  shows "\<exists>n u'. get_size u x = Some (n, u')"
proof -
  from assms obtain r where r: "fst (view u) x = Some r" by (auto simp: uf_wf_view)
  then have "r < length (size_uf u)" using view_less[of u x r] assms by (simp add: uf_wf_view)
  with r have "get_size_view (view u) x \<noteq> None"
    by (auto simp: get_size_view_def view_def)
  then show ?thesis using get_size_refines[of u x] by (cases "get_size u x") auto
qed

lemma UnionFind_init_view: "i < n \<Longrightarrow> fst (view (UnionFind_init n)) i = Some i"
  by (auto simp: UnionFind_init_def view_def root_of_self_iff)

lemma UnionFind_init_wf: "uf_wf (UnionFind_init n)"
  using UnionFind_init_view[of _ n] by (auto simp: uf_wf_view) (simp_all add: UnionFind_init_def)

subsection \<open>Activation and the incremental step\<close>

lemma dlt_not_dle: "dlt a b \<Longrightarrow> \<not> dle b a"
  by (cases a; cases b) auto

lemma dlt_irrefl: "\<not> dlt a a"
  by (cases a) auto

lemma activate_char:
  "activate conf p js act = Some act' \<Longrightarrow>
     length act' = length act \<and>
     (\<forall>i<length act. act' ! i = (act ! i \<or> (i \<in> set js \<and> dle (conf ! i) p))) \<and>
     (\<forall>i\<in>set js. i < length act \<and> (act' ! i \<or> i < length conf))"
proof (induction js arbitrary: act)
  case Nil
  then show ?case by simp
next
  case (Cons j js)
  from Cons.prems have j: "j < length act" by (simp split: if_splits)
  show ?case
  proof (cases "act ! j")
    case True
    with Cons.prems j have "activate conf p js act = Some act'" by simp
    from Cons.IH[OF this] True j show ?thesis by auto
  next
    case False
    with Cons.prems j have c: "j < length conf" by (simp split: if_splits)
    show ?thesis
    proof (cases "dle (conf ! j) p")
      case True
      with Cons.prems j False c have "activate conf p js (act[j := True]) = Some act'" by simp
      from Cons.IH[OF this] True j c show ?thesis
        by (auto simp: nth_list_update)
    next
      case nd: False
      with Cons.prems j False c have "activate conf p js act = Some act'" by simp
      from Cons.IH[OF this] nd j c False show ?thesis by auto
    qed
  qed
qed

lemma activate_again:
  "\<forall>i\<in>set js. i < length act \<and> (act ! i \<or> (i < length conf \<and> \<not> dle (conf ! i) p)) \<Longrightarrow>
     activate conf p js act = Some act"
  by (induction js) auto

lemma activate_idem:
  assumes "activate conf p js act = Some act'"
  shows "activate conf p js act' = Some act'"
proof (rule activate_again)
  from activate_char[OF assms]
  show "\<forall>i\<in>set js. i < length act' \<and> (act' ! i \<or> (i < length conf \<and> \<not> dle (conf ! i) p))"
    by auto
qed

lemma activate_total:
  "\<forall>i\<in>set js. i < length act \<and> i < length conf \<Longrightarrow> \<exists>act'. activate conf p js act = Some act'"
  by (induction js arbitrary: act) auto

lemma generate_single_percolation_error:
  "dlt p (current_p s) \<Longrightarrow>
     generate_single_percolation s aristas configuracion p Smax =
       map_option (\<lambda>n. (n, Smax, s, [order_error])) (Ncc (uf s) (numNodos s))"
  by (cases "Ncc (uf s) (numNodos s)") (simp_all add: generate_single_percolation_def)

lemma generate_single_percolation_count:
  assumes "generate_single_percolation s aristas configuracion p Smax = Some (n, Smax', s', errs)"
  shows "Ncc (uf s') (numNodos s') = Some n"
  using assms
  by (auto simp: generate_single_percolation_def bind_eq_Some_conv split: if_splits)

subsection \<open>States only move forward\<close>

lemma later_refl: "later u u"
  unfolding later_def by blast

lemma later_len: "later u u' \<Longrightarrow> length (parent u') = length (parent u)"
  unfolding later_def by (elim conjE)

lemma later_len_size: "later u u' \<Longrightarrow> length (size_uf u') = length (size_uf u)"
  unfolding later_def by (elim conjE)

lemma later_conn:
  "later u u' \<Longrightarrow> fst (view u) i = fst (view u) j \<Longrightarrow> fst (view u') i = fst (view u') j"
  unfolding later_def by blast

lemma later_None: "later u u' \<Longrightarrow> (fst (view u') i = None) = (fst (view u) i = None)"
  unfolding later_def by blast

lemma later_root: "later u u' \<Longrightarrow> fst (view u') i = Some i \<Longrightarrow> fst (view u) i = Some i"
  unfolding later_def by blast

lemma laterI:
  assumes "length (parent u') = length (parent u)" "length (size_uf u') = length (size_uf u)"
    "\<And>i j. fst (view u) i = fst (view u) j \<Longrightarrow> fst (view u') i = fst (view u') j"
    "\<And>i. (fst (view u') i = None) = (fst (view u) i = None)"
    "\<And>i. fst (view u') i = Some i \<Longrightarrow> fst (view u) i = Some i"
  shows "later u u'"
  unfolding later_def using assms by blast

lemma later_trans:
  assumes "later u v" "later v w"
  shows "later u w"
proof (rule laterI)
  show "length (parent w) = length (parent u)"
    using later_len[OF assms(1)] later_len[OF assms(2)] by simp
  show "length (size_uf w) = length (size_uf u)"
    using later_len_size[OF assms(1)] later_len_size[OF assms(2)] by simp
  show "fst (view w) i = fst (view w) j" if "fst (view u) i = fst (view u) j" for i j
    by (rule later_conn[OF assms(2) later_conn[OF assms(1) that]])
  show "(fst (view w) i = None) = (fst (view u) i = None)" for i
    using later_None[OF assms(1), of i] later_None[OF assms(2), of i] by simp
  show "fst (view u) i = Some i" if "fst (view w) i = Some i" for i
    by (rule later_root[OF assms(1) later_root[OF assms(2) that]])
qed

lemma later_view: "view u' = view u \<Longrightarrow> length (parent u') = length (parent u) \<Longrightarrow> later u u'"
  by (rule laterI) (simp_all add: view_def)

lemma find_uf_later: "find_uf u x = Some (r, u') \<Longrightarrow> later u u'"
  by (rule later_view) (auto dest: find_uf_view find_uf_Some(3))

lemma get_size_later: "get_size u x = Some (n, u') \<Longrightarrow> later u u'"
  by (rule later_view) (auto dest: get_size_view_same get_size_length)

lemma unite_later:
  assumes "unite u a b = Some u'"
  shows "later u u'"
  using unite_length[OF assms] unite_conn_mono[OF assms] unite_None_iff[OF assms]
    unite_roots_subset[OF assms]
  by (intro laterI)

lemma later_wf: "later u u' \<Longrightarrow> uf_wf u \<Longrightarrow> uf_wf u'"
  using later_len[of u u'] later_len_size[of u u'] later_None[of u u']
  by (simp add: uf_wf_view)

lemma length_filter_mono:
  "(\<And>x. x \<in> set xs \<Longrightarrow> P x \<Longrightarrow> Q x) \<Longrightarrow> length (filter P xs) \<le> length (filter Q xs)"
  by (induction xs) auto

lemma later_Ncc:
  assumes "later u u'" "Ncc u n = Some k"
  shows "\<exists>k'. Ncc u' n = Some k' \<and> k' \<le> k"
proof -
  from assms have n: "\<not> length (parent u) < n" "\<not> length (parent u') < n"
    and k: "k = length (filter (\<lambda>i. fst (view u) i = Some i) [0..<n])"
    using later_len[OF assms(1)] by (auto simp: Ncc_view split: if_splits)
  have "length (filter (\<lambda>i. fst (view u') i = Some i) [0..<n]) \<le> k"
    unfolding k using later_root[OF assms(1)] by (intro length_filter_mono)
  with n show ?thesis by (simp add: Ncc_view)
qed

lemma connect_edges_later:
  "connect_edges es act f a S = Some (f', a', S') \<Longrightarrow> later f f' \<and> later a a' \<and> S \<le> S'"
proof (induction es arbitrary: f a S)
  case Nil
  then show ?case by (simp add: later_refl)
next
  case (Cons e es)
  obtain u v where e: "e = (u, v)" by (cases e)
  show ?case
  proof (cases "act ! u \<and> act ! v")
    case False
    with Cons.prems e have "connect_edges es act f a S = Some (f', a', S')"
      by (auto split: if_splits)
    then show ?thesis by (rule Cons.IH)
  next
    case True
    with Cons.prems e obtain f1 s1 f2 s2 f3 a1 where
      s: "unite f u v = Some f1" "get_size f1 u = Some (s1, f2)" "get_size f2 v = Some (s2, f3)"
         "unite a u v = Some a1"
      and r: "connect_edges es act f3 a1 (max S (max (int s1) (int s2))) = Some (f', a', S')"
      by (auto simp: bind_eq_Some_conv split: if_splits)
    from Cons.IH[OF r]
    have "later f3 f'" "later a1 a'" "max S (max (int s1) (int s2)) \<le> S'" by simp_all
    moreover have "later f f3"
      using s by (blast intro: later_trans unite_later get_size_later)
    moreover have "later a a1" using s by (blast intro: unite_later)
    ultimately show ?thesis by (auto intro: later_trans)
  qed
qed

lemma generate_single_percolation_Some:
  assumes "generate_single_percolation s aristas configuracion p Smax = Some (n, Smax', s', errs)"
  obtains (rejected) "dlt p (current_p s)" "s' = s" "Smax' = Smax" "errs = [order_error]"
      "Ncc (uf s) (numNodos s) = Some n"
  | (advanced) act f a where "\<not> dlt p (current_p s)"
      "activate configuracion p [0..<numNodos s] (nodoActivo s) = Some act"
      "connect_edges aristas act (uf s) (uf_aux s) Smax = Some (f, a, Smax')"
      "Ncc f (numNodos s) = Some n"
      "s' = s\<lparr>uf := f, uf_aux := a, current_p := p, nodoActivo := act\<rparr>" "errs = []"
  using assms
  by (auto simp: generate_single_percolation_def bind_eq_Some_conv split: if_splits)

lemma generate_single_percolation_later:
  assumes "generate_single_percolation s aristas configuracion p Smax = Some (n, Smax', s', errs)"
  shows "later (uf s) (uf s') \<and> later (uf_aux s) (uf_aux s') \<and> Smax \<le> Smax' \<and>
    numNodos s' = numNodos s \<and> superTop s' = superTop s \<and> superBottom s' = superBottom s \<and>
    p_c s' = p_c s \<and> length (nodoActivo s') = length (nodoActivo s)"
  using assms
proof (cases rule: generate_single_percolation_Some)
  case rejected
  then show ?thesis by (simp add: later_refl)
next
  case (advanced act f a)
  from connect_edges_later[OF advanced(3)] activate_char[OF advanced(2)] advanced(5)
  show ?thesis by simp
qed

lemma engine_wf_later:
  assumes "engine_wf s" "later (uf s) (uf s')" "later (uf_aux s) (uf_aux s')"
    "numNodos s' = numNodos s" "superTop s' = superTop s" "superBottom s' = superBottom s"
    "length (nodoActivo s') = length (nodoActivo s)"
  shows "engine_wf s'"
  using assms later_wf[of "uf s" "uf s'"] later_wf[of "uf_aux s" "uf_aux s'"]
    later_len[of "uf s" "uf s'"] later_len[of "uf_aux s" "uf_aux s'"]
  by (simp add: engine_wf_def)

lemma generate_single_percolation_wf:
  assumes "generate_single_percolation s aristas configuracion p Smax = Some (n, Smax', s', errs)"
    "engine_wf s"
  shows "engine_wf s'"
  using generate_single_percolation_later[OF assms(1)] assms(2)
  by (intro engine_wf_later[of s s']) simp_all

lemma connect_edges_total:
  assumes "uf_wf f" "uf_wf a" "length act \<le> length (parent f)" "length act \<le> length (parent a)"
    "list_all (\<lambda>(u, v). u < length act \<and> v < length act) es"
  shows "\<exists>r. connect_edges es act f a S = Some r"
  using assms
proof (induction es arbitrary: f a S)
  case Nil
  then show ?case by simp
next
  case (Cons e es)
  obtain u v where e: "e = (u, v)" by (cases e)
  with Cons.prems have uv: "u < length act" "v < length act"
    and es: "list_all (\<lambda>(u, v). u < length act \<and> v < length act) es" by auto
  show ?case
  proof (cases "act ! u \<and> act ! v")
    case False
    with uv e Cons.IH[OF Cons.prems(1-4) es, of S] show ?thesis by auto
  next
    case True
    from uv Cons.prems obtain f1 where f1: "unite f u v = Some f1"
      using unite_wf_total[of f u v] by auto
    have w1: "uf_wf f1" "length (parent f1) = length (parent f)"
      using unite_wf[OF f1] unite_length[OF f1] Cons.prems by auto
    with uv Cons.prems obtain s1 f2 where f2: "get_size f1 u = Some (s1, f2)"
      using get_size_wf_total[of f1 u] by auto
    have w2: "uf_wf f2" "length (parent f2) = length (parent f)"
      using get_size_wf[OF f2] get_size_length[OF f2] w1 by auto
    with uv Cons.prems obtain s2 f3 where f3: "get_size f2 v = Some (s2, f3)"
      using get_size_wf_total[of f2 v] by auto
    have w3: "uf_wf f3" "length act \<le> length (parent f3)"
      using get_size_wf[OF f3] get_size_length[OF f3] w2 Cons.prems by auto
    from uv Cons.prems obtain a1 where a1: "unite a u v = Some a1"
      using unite_wf_total[of a u v] by auto
    have wa: "uf_wf a1" "length act \<le> length (parent a1)"
      using unite_wf[OF a1] unite_length[OF a1] Cons.prems by auto
    from Cons.IH[OF w3(1) wa(1) w3(2) wa(2) es, of "max S (max (int s1) (int s2))"]
    obtain r where "connect_edges es act f3 a1 (max S (max (int s1) (int s2))) = Some r" by blast
    with True uv e f1 f2 f3 a1 show ?thesis by (cases r) simp
  qed
qed

lemma Ncc_total: "n \<le> length (parent u) \<Longrightarrow> \<exists>k. Ncc u n = Some k"
  by (simp add: Ncc_def)

lemma generate_single_percolation_total:
  assumes "engine_wf s" "inputs_ok s aristas configuracion"
  shows "\<exists>n Smax' s' errs.
           generate_single_percolation s aristas configuracion p Smax = Some (n, Smax', s', errs)"
proof (cases "dlt p (current_p s)")
  case True
  with assms(1) show ?thesis
    by (auto simp: generate_single_percolation_error engine_wf_def Ncc_def)
next
  case False
  from assms obtain act where act: "activate configuracion p [0..<numNodos s] (nodoActivo s) = Some act"
    using activate_total[of "[0..<numNodos s]" "nodoActivo s" configuracion p]
    by (auto simp: engine_wf_def inputs_ok_def)
  then have la: "length act = numNodos s" using activate_char[OF act] assms(1)
    by (simp add: engine_wf_def)
  from assms la obtain f a S' where
    c: "connect_edges aristas act (uf s) (uf_aux s) Smax = Some (f, a, S')"
    using connect_edges_total[of "uf s" "uf_aux s" act aristas Smax]
    by (auto simp: engine_wf_def inputs_ok_def)
  from connect_edges_later[OF c] assms(1) have "numNodos s \<le> length (parent f)"
    using later_len[of "uf s" f] by (simp add: engine_wf_def)
  then obtain n where "Ncc f (numNodos s) = Some n" using Ncc_total by blast
  with False act c show ?thesis by (simp add: generate_single_percolation_def)
qed

subsection \<open>The boundary query and the boundary wiring\<close>

lemma view_roots: "view u' = view u \<Longrightarrow> length (parent u') = length (parent u) \<Longrightarrow>
    roots u' = roots u \<and> size_uf u' = size_uf u"
  by (simp add: view_def roots_eq_iff)

lemma has_percolation_Some:
  assumes "has_percolation s = Some (b, s')"
  obtains a where "s' = s\<lparr>uf_aux := a\<rparr>" "view a = view (uf_aux s)"
    "length (parent a) = length (parent (uf_aux s))"
    "fst (view (uf_aux s)) (superTop s) \<noteq> None" "fst (view (uf_aux s)) (superBottom s) \<noteq> None"
    "b = (fst (view (uf_aux s)) (superTop s) = fst (view (uf_aux s)) (superBottom s))"
proof -
  from assms obtain t a1 r a2 where f1: "find_uf (uf_aux s) (superTop s) = Some (t, a1)"
    and f2: "find_uf a1 (superBottom s) = Some (r, a2)" and b: "b = (t = r)"
    and s': "s' = s\<lparr>uf_aux := a2\<rparr>"
    by (auto simp: has_percolation_def bind_eq_Some_conv)
  from find_uf_view[OF f1] find_uf_view[OF f2] have v: "view a2 = view (uf_aux s)" by simp
  from find_uf_Some(3)[OF f1] find_uf_Some(3)[OF f2]
  have l: "length (parent a2) = length (parent (uf_aux s))" by simp
  from find_uf_Some(1)[OF f1] have t: "fst (view (uf_aux s)) (superTop s) = Some t"
    by (simp add: view_def)
  from find_uf_Some(1)[OF f2] find_uf_view[OF f1]
  have r: "fst (view (uf_aux s)) (superBottom s) = Some r"
    by (simp add: view_def)
  from s' v l t r b show thesis by (intro that[of a2]) auto
qed

lemma has_percolation_total:
  assumes "fst (view (uf_aux s)) (superTop s) \<noteq> None" "fst (view (uf_aux s)) (superBottom s) \<noteq> None"
  shows "\<exists>b s'. has_percolation s = Some (b, s')"
proof -
  from assms obtain t r where t: "root_of (parent (uf_aux s)) (superTop s) = Some t"
    and r: "root_of (parent (uf_aux s)) (superBottom s) = Some r"
    by (auto simp: view_def)
  from find_uf_total[OF t] obtain a1 where f1: "find_uf (uf_aux s) (superTop s) = Some (t, a1)"
    by blast
  from find_uf_Some(2)[OF f1] r have "root_of (parent a1) (superBottom s) = Some r" by simp
  from find_uf_total[OF this] obtain a2 where "find_uf a1 (superBottom s) = Some (r, a2)" by blast
  with f1 show ?thesis by (simp add: has_percolation_def)
qed

lemma engine_wf_terminals:
  assumes "engine_wf s"
  shows "fst (view (uf_aux s)) (superTop s) \<noteq> None" "fst (view (uf_aux s)) (superBottom s) \<noteq> None"
  using assms by (simp_all add: engine_wf_def uf_wf_view)


lemma SitePercolation_init_wf: "engine_wf (SitePercolation_init n)"
  using UnionFind_init_wf[of n] UnionFind_init_wf[of "n + 2"]
  by (simp add: engine_wf_def SitePercolation_init_def) (simp add: UnionFind_init_def)

lemma isqrt_from_le: "isqrt_from n m \<le> m"
  by (induction m) auto

lemma isqrt_from_sq: "isqrt_from n m * isqrt_from n m \<le> n"
  by (induction m) auto

lemma isqrt_from_max: "k \<le> m \<Longrightarrow> k * k \<le> n \<Longrightarrow> k \<le> isqrt_from n m"
proof (induction m)
  case 0
  then show ?case by simp
next
  case (Suc m)
  then show ?case by (cases "k = Suc m") auto
qed

lemma grid_size_le: "grid_size n \<le> n"
  by (simp add: grid_size_def isqrt_from_le)

lemma grid_size_sq: "grid_size n * grid_size n \<le> n"
  by (simp add: grid_size_def isqrt_from_sq)

lemma grid_size_upper: "n < (grid_size n + 1) * (grid_size n + 1)"
proof (rule ccontr)
  assume "\<not> n < (grid_size n + 1) * (grid_size n + 1)"
  then have le: "(grid_size n + 1) * (grid_size n + 1) \<le> n" by simp
  have "grid_size n + 1 \<le> (grid_size n + 1) * (grid_size n + 1)" by simp
  with le have "grid_size n + 1 \<le> n" by linarith
  from isqrt_from_max[OF this le] show False by (simp add: grid_size_def)
qed

lemma grid_size_floor_sqrt: "int (grid_size n) = \<lfloor>sqrt (real n)\<rfloor>"
proof -
  have "real (grid_size n) * real (grid_size n) \<le> real n"
    using grid_size_sq[of n] by (metis of_nat_le_iff of_nat_mult)
  then have "(real (grid_size n))\<^sup>2 \<le> real n" by (simp add: power2_eq_square)
  then have lo: "real (grid_size n) \<le> sqrt (real n)" by (rule real_le_rsqrt)
  have "real n < real ((grid_size n + 1) * (grid_size n + 1))"
    using grid_size_upper[of n] by (simp only: of_nat_less_iff)
  then have "real n < (real (grid_size n) + 1)\<^sup>2" by (simp add: power2_eq_square algebra_simps)
  then have hi: "sqrt (real n) < real (grid_size n) + 1"
    by (intro real_less_lsqrt) simp_all
  have "\<lfloor>sqrt (real n)\<rfloor> = int (grid_size n)"
    using lo hi by (intro floor_unique) simp_all
  then show ?thesis by simp
qed

lemma supernodes_loop_correct:
  assumes "uf_wf a" "t < length (parent a)" "b < length (parent a)"
    "\<forall>i\<in>set js. i < length (parent a) \<and> base + i < length (parent a)"
  shows "\<exists>a'. supernodes_loop t b base js a = Some a' \<and> later a a' \<and>
           (\<forall>i\<in>set js. fst (view a') t = fst (view a') i \<and>
                        fst (view a') b = fst (view a') (base + i))"
  using assms
proof (induction js arbitrary: a)
  case Nil
  then show ?case by (simp add: later_refl)
next
  case (Cons j js)
  from Cons.prems obtain a1 where a1: "unite a t j = Some a1"
    using unite_wf_total[of a t j] by auto
  have w1: "uf_wf a1" and l1: "length (parent a1) = length (parent a)"
    using unite_wf[OF a1] unite_length[OF a1] Cons.prems by auto
  with Cons.prems obtain a2 where a2: "unite a1 b (base + j) = Some a2"
    using unite_wf_total[of a1 b "base + j"] by auto
  have w2: "uf_wf a2" and l2: "length (parent a2) = length (parent a)"
    using unite_wf[OF a2] unite_length[OF a2] w1 l1 by auto
  from Cons.IH[OF w2] l2 Cons.prems obtain a' where
    r: "supernodes_loop t b base js a2 = Some a'" and la: "later a2 a'"
    and c: "\<forall>i\<in>set js. fst (view a') t = fst (view a') i \<and> fst (view a') b = fst (view a') (base + i)"
    by auto
  have "fst (view a1) t = fst (view a1) j" using unite_joins[OF a1] by simp
  then have "fst (view a2) t = fst (view a2) j" by (rule later_conn[OF unite_later[OF a2]])
  then have tj: "fst (view a') t = fst (view a') j" by (rule later_conn[OF la])
  have "fst (view a2) b = fst (view a2) (base + j)" using unite_joins[OF a2] by simp
  then have bj: "fst (view a') b = fst (view a') (base + j)" by (rule later_conn[OF la])
  have "later a a'"
    using unite_later[OF a1] unite_later[OF a2] la by (blast intro: later_trans)
  with a1 a2 r tj bj c show ?case by simp
qed

lemma initialize_supernodes_correct:
  assumes "engine_wf s"
  shows "\<exists>a. initialize_supernodes s = Some (s\<lparr>uf_aux := a\<rparr>) \<and> later (uf_aux s) a \<and>
          (\<forall>i<grid_size (numNodos s).
              fst (view a) (superTop s) = fst (view a) i \<and>
              fst (view a) (superBottom s) = fst (view a) (numNodos s - grid_size (numNodos s) + i))"
proof -
  have "\<forall>i\<in>set [0..<grid_size (numNodos s)]. i < length (parent (uf_aux s)) \<and>
           numNodos s - grid_size (numNodos s) + i < length (parent (uf_aux s))"
    using assms grid_size_le[of "numNodos s"] by (auto simp: engine_wf_def)
  from supernodes_loop_correct[OF _ _ _ this, of "superTop s" "superBottom s"] assms
  obtain a' where "supernodes_loop (superTop s) (superBottom s) (numNodos s - grid_size (numNodos s))
       [0..<grid_size (numNodos s)] (uf_aux s) = Some a'" "later (uf_aux s) a'"
     "\<forall>i\<in>set [0..<grid_size (numNodos s)]. fst (view a') (superTop s) = fst (view a') i \<and>
        fst (view a') (superBottom s) = fst (view a') (numNodos s - grid_size (numNodos s) + i)"
    by (auto simp: engine_wf_def)
  then show ?thesis by (intro exI[of _ a']) (simp add: initialize_supernodes_def)
qed


subsection \<open>Repeating the edge loop\<close>

lemma settled_cong:
  "view f' = view f \<Longrightarrow> view a' = view a \<Longrightarrow> settled act f' a' S e = settled act f a S e"
  by (simp add: settled_def)

lemma get_size_Some:
  assumes "get_size u x = Some (n, u')"
  shows "\<exists>r. fst (view u) x = Some r \<and> r < length (snd (view u)) \<and> n = snd (view u) ! r"
    and "view u' = view u" and "length (parent u') = length (parent u)"
proof -
  from assms have "get_size_view (view u) x = Some n"
    using get_size_refines[of u x] by simp
  then show "\<exists>r. fst (view u) x = Some r \<and> r < length (snd (view u)) \<and> n = snd (view u) ! r"
    by (auto simp: get_size_view_def split: option.splits if_splits)
  show "view u' = view u" using assms by (rule get_size_view_same)
  show "length (parent u') = length (parent u)" using assms by (rule get_size_length)
qed

lemma get_size_total:
  assumes "fst (view u) x = Some r" "r < length (snd (view u))"
  shows "\<exists>u'. get_size u x = Some (snd (view u) ! r, u')"
proof -
  from assms have "get_size_view (view u) x = Some (snd (view u) ! r)"
    by (simp add: get_size_view_def)
  then show ?thesis using get_size_refines[of u x] by (cases "get_size u x") auto
qed

lemma unite_size_strong:
  assumes "unite u a b = Some u'" "fst (view u) x = Some r0"
  shows "\<exists>r'. fst (view u') x = Some r' \<and>
           ((r' = r0 \<and> snd (view u') ! r' = snd (view u) ! r0) \<or> fst (view u') x = fst (view u') a)"
  using assms(1)
proof (cases rule: unite_cases)
  case (same ra)
  with assms show ?thesis by simp
next
  case (merge c r)
  show ?thesis
  proof (cases "r0 = c \<or> r0 = r")
    case True
    with merge assms(2) show ?thesis by (auto simp: merged_def)
  next
    case False
    with merge assms(2) show ?thesis by (auto simp: merged_def)
  qed
qed

lemma settled_step:
  assumes f1: "unite f u v = Some f1" and f2: "get_size f1 u = Some (s1, f2)"
    and f3: "get_size f2 v = Some (s2, f3)" and a1: "unite a u v = Some a1"
    and e: "settled act f a S e"
  shows "settled act f3 a1 (max S (max (int s1) (int s2))) e"
proof -
  have v3: "view f3 = view f1" using get_size_Some(2)[OF f2] get_size_Some(2)[OF f3] by simp
  from get_size_Some(1)[OF f2] obtain ru where ru: "fst (view f1) u = Some ru"
    "ru < length (snd (view f1))" "s1 = snd (view f1) ! ru" by blast
  have ls: "length (snd (view f1)) = length (snd (view f))"
    using unite_length(2)[OF f1] by (simp add: view_def)
  show ?thesis
  proof (cases "act ! fst e \<and> act ! snd e")
    case False
    with e show ?thesis by (auto simp: settled_def)
  next
    case True
    with e obtain r ra where r: "fst (view f) (fst e) = Some r" "fst (view f) (snd e) = Some r"
      "r < length (snd (view f))" "int (snd (view f) ! r) \<le> S"
      and ra: "fst (view a) (fst e) = Some ra" "fst (view a) (snd e) = Some ra"
      and l: "fst e < length act" "snd e < length act"
      by (auto simp: settled_def)
    from unite_size_strong[OF f1 r(1)] obtain r' where r': "fst (view f1) (fst e) = Some r'"
      "(r' = r \<and> snd (view f1) ! r' = snd (view f) ! r) \<or> fst (view f1) (fst e) = fst (view f1) u"
      by blast
    have same: "fst (view f1) (snd e) = Some r'"
      using unite_conn_mono[OF f1, of "fst e" "snd e"] r r'(1) by simp
    have bound: "r' < length (snd (view f1)) \<and> int (snd (view f1) ! r') \<le> max S (max (int s1) (int s2))"
      using r'(2)
    proof
      assume "r' = r \<and> snd (view f1) ! r' = snd (view f) ! r"
      with r ls show ?thesis by auto
    next
      assume "fst (view f1) (fst e) = fst (view f1) u"
      with r'(1) ru have "r' = ru" by simp
      with ru show ?thesis by auto
    qed
    have "fst (view a1) (fst e) = fst (view a1) (snd e)"
      using unite_conn_mono[OF a1, of "fst e" "snd e"] ra by simp
    moreover have "fst (view a1) (fst e) \<noteq> None"
      using unite_None_iff[OF a1, of "fst e"] ra by simp
    ultimately have "\<exists>ra'. fst (view a1) (fst e) = Some ra' \<and> fst (view a1) (snd e) = Some ra'"
      by (cases "fst (view a1) (fst e)") simp_all
    with l r'(1) same bound v3 show ?thesis by (auto simp: settled_def)
  qed
qed

lemma settled_new:
  assumes f1: "unite f u v = Some f1" and f2: "get_size f1 u = Some (s1, f2)"
    and f3: "get_size f2 v = Some (s2, f3)" and a1: "unite a u v = Some a1"
    and l: "u < length act" "v < length act"
  shows "settled act f3 a1 (max S (max (int s1) (int s2))) (u, v)"
proof -
  have v3: "view f3 = view f1" using get_size_Some(2)[OF f2] get_size_Some(2)[OF f3] by simp
  from get_size_Some(1)[OF f2] obtain ru where ru: "fst (view f1) u = Some ru"
    "ru < length (snd (view f1))" "s1 = snd (view f1) ! ru" by blast
  from unite_joins[OF f1] ru have "fst (view f1) v = Some ru" by simp
  moreover from unite_joins[OF a1] obtain ra where ra: "fst (view a1) u = Some ra"
    by blast
  moreover from unite_joins[OF a1] ra have "fst (view a1) v = Some ra" by simp
  ultimately show ?thesis using ru l v3 by (auto simp: settled_def)
qed

lemma connect_edges_settles:
  assumes "connect_edges es act f a S = Some (f', a', S')" "\<forall>e\<in>D. settled act f a S e"
  shows "\<forall>e\<in>D \<union> set es. settled act f' a' S' e"
  using assms
proof (induction es arbitrary: f a S D)
  case Nil
  then show ?case by simp
next
  case (Cons e es)
  obtain u v where e: "e = (u, v)" by (cases e)
  from Cons.prems(1) e have lu: "u < length act" by (auto split: if_splits)
  show ?case
  proof (cases "act ! u \<and> act ! v")
    case False
    with Cons.prems(1) e lu have r: "connect_edges es act f a S = Some (f', a', S')"
      and lv: "act ! u \<longrightarrow> v < length act"
      by (auto split: if_splits)
    from False lu lv e have "settled act f a S e" by (auto simp: settled_def)
    with Cons.prems(2) have "\<forall>x\<in>insert e D. settled act f a S x" by simp
    from Cons.IH[OF r this] show ?thesis by simp
  next
    case True
    with Cons.prems(1) e obtain f1 s1 f2 s2 f3 a1 where
      s: "unite f u v = Some f1" "get_size f1 u = Some (s1, f2)" "get_size f2 v = Some (s2, f3)"
         "unite a u v = Some a1"
      and r: "connect_edges es act f3 a1 (max S (max (int s1) (int s2))) = Some (f', a', S')"
      and lv: "v < length act"
      by (auto simp: bind_eq_Some_conv split: if_splits)
    have "\<forall>x\<in>insert e D. settled act f3 a1 (max S (max (int s1) (int s2))) x"
      using settled_step[OF s] settled_new[OF s lu lv] Cons.prems(2) e by auto
    from Cons.IH[OF r this] show ?thesis by simp
  qed
qed

lemma connect_edges_settled_again:
  assumes "\<forall>e\<in>set es. settled act f a S e"
  shows "\<exists>f' a'. connect_edges es act f a S = Some (f', a', S) \<and> view f' = view f \<and> view a' = view a
           \<and> length (parent f') = length (parent f) \<and> length (parent a') = length (parent a)"
  using assms
proof (induction es arbitrary: f a)
  case Nil
  then show ?case by simp
next
  case (Cons e es)
  obtain u v where e: "e = (u, v)" by (cases e)
  from Cons.prems e have se: "settled act f a S (u, v)" and rest: "\<forall>x\<in>set es. settled act f a S x"
    by auto
  show ?case
  proof (cases "act ! u \<and> act ! v")
    case False
    with se e Cons.IH[OF rest] show ?thesis by (auto simp: settled_def)
  next
    case True
    with se obtain r ra where r: "fst (view f) u = Some r" "fst (view f) v = Some r"
      "r < length (snd (view f))" "int (snd (view f) ! r) \<le> S"
      and ra: "fst (view a) u = Some ra" "fst (view a) v = Some ra"
      and l: "u < length act" "v < length act"
      by (auto simp: settled_def)
    from unite_noop[OF r(1,2)] obtain f1 where f1: "unite f u v = Some f1" "view f1 = view f"
      by blast
    from get_size_total[of f1 u r] r f1 obtain f2 where
      f2: "get_size f1 u = Some (snd (view f) ! r, f2)" by auto
    from get_size_total[of f2 v r] r f1 get_size_Some(2)[OF f2] obtain f3 where
      f3: "get_size f2 v = Some (snd (view f) ! r, f3)" by auto
    from unite_noop[OF ra] obtain a1 where a1: "unite a u v = Some a1" "view a1 = view a"
      by blast
    have v3: "view f3 = view f" using f1 get_size_Some(2)[OF f2] get_size_Some(2)[OF f3] by simp
    have l3: "length (parent f3) = length (parent f)"
      using unite_length(1)[OF f1(1)] get_size_Some(3)[OF f2] get_size_Some(3)[OF f3] by simp
    have la: "length (parent a1) = length (parent a)" using unite_length(1)[OF a1(1)] .
    have "\<forall>x\<in>set es. settled act f3 a1 S x"
      using rest settled_cong[OF v3 a1(2)] by simp
    from Cons.IH[OF this] obtain f' a' where
      "connect_edges es act f3 a1 S = Some (f', a', S)" "view f' = view f3" "view a' = view a1"
      "length (parent f') = length (parent f3)" "length (parent a') = length (parent a1)"
      by blast
    with True l e f1 f2 f3 a1 r(4) v3 l3 la show ?thesis
      by (intro exI[of _ f'] exI[of _ a']) (simp add: max_absorb1)
  qed
qed

lemma Ncc_cong:
  "view u' = view u \<Longrightarrow> length (parent u') = length (parent u) \<Longrightarrow> Ncc u' n = Ncc u n"
  by (simp add: Ncc_view)

subsection \<open>The sweep\<close>

lemma sweep_bound_value [code]: "sweep_bound = Fin (562949953477607 / 562949953421312)"
  by code_simp

lemma percolates_view:
  "percolates s \<longleftrightarrow>
     fst (view (uf_aux s)) (superTop s) \<noteq> None \<and>
     fst (view (uf_aux s)) (superTop s) = fst (view (uf_aux s)) (superBottom s)"
proof (cases "has_percolation s")
  case None
  have "\<not> (fst (view (uf_aux s)) (superTop s) \<noteq> None \<and>
     fst (view (uf_aux s)) (superTop s) = fst (view (uf_aux s)) (superBottom s))"
  proof
    assume a: "fst (view (uf_aux s)) (superTop s) \<noteq> None \<and>
     fst (view (uf_aux s)) (superTop s) = fst (view (uf_aux s)) (superBottom s)"
    then have "fst (view (uf_aux s)) (superBottom s) \<noteq> None" by metis
    with a has_percolation_total[of s] obtain b s' where "has_percolation s = Some (b, s')"
      by blast
    with None show False by simp
  qed
  with None show ?thesis by (simp add: percolates_def)
next
  case (Some r)
  obtain b s' where r: "r = (b, s')" by (cases r)
  with Some have h: "has_percolation s = Some (b, s')" by simp
  then show ?thesis
    by (cases rule: has_percolation_Some) (simp add: percolates_def h)
qed

lemma cluster_row_Some:
  "cluster_row js f = Some (rs, f') \<Longrightarrow>
     view f' = view f \<and> length (parent f') = length (parent f) \<and>
     map Some rs = map (fst (view f)) js"
proof (induction js arbitrary: f rs)
  case Nil
  then show ?case by simp
next
  case (Cons j js)
  from Cons.prems obtain r f1 rs' where f1: "find_uf f j = Some (r, f1)"
    and c: "cluster_row js f1 = Some (rs', f')" and rs: "rs = r # rs'"
    by (auto simp: bind_eq_Some_conv)
  from Cons.IH[OF c] find_uf_view[OF f1] find_uf_Some(1,3)[OF f1] rs
  show ?case by (simp add: view_def)
qed

lemma cluster_row_total:
  "\<forall>j\<in>set js. fst (view f) j \<noteq> None \<Longrightarrow> \<exists>r. cluster_row js f = Some r"
proof (induction js arbitrary: f)
  case Nil
  then show ?case by simp
next
  case (Cons j js)
  then obtain r where "root_of (parent f) j = Some r" by (auto simp: view_def)
  from find_uf_total[OF this] obtain f1 where f1: "find_uf f j = Some (r, f1)" by blast
  from Cons.prems find_uf_view[OF f1] have "\<forall>j\<in>set js. fst (view f1) j \<noteq> None" by simp
  from Cons.IH[OF this] obtain q where "cluster_row js f1 = Some q" by blast
  with f1 show ?case by (cases q) simp
qed

text \<open>One pass through the loop body, taken apart.\<close>

lemma sweep_body_Some:
  assumes "sweep_body aristas configuracion visualization st = Some st'"
  obtains n Smax' s1 errs f s3 where
    "generate_single_percolation (engine st) aristas configuracion (p_var st) (Smax_var st) =
       Some (n, Smax', s1, errs)"
    "if visualization
     then \<exists>rs. cluster_row [0..<numNodos s1] (uf s1) = Some (rs, f) \<and>
            percolation_report st' = percolation_report st @
              [(p_var st, n, Smax', ddiv (double_of_int Smax') (double_of_int (int (numNodos s1))))] \<and>
            cluster_of_each_node st' = cluster_of_each_node st @ [(p_var st, rs)]
     else f = uf s1 \<and> percolation_report st' = percolation_report st \<and>
          cluster_of_each_node st' = cluster_of_each_node st"
    "if percolation st then s3 = s1\<lparr>uf := f\<rparr> \<and> percolation st' \<and> cout st' = cout st
     else \<exists>b s'. has_percolation (s1\<lparr>uf := f\<rparr>) = Some (b, s') \<and> percolation st' = b \<and>
            (if b then s3 = s'\<lparr>p_c := Some (p_var st)\<rparr> \<and> cout st' = cout st @ [p_var st]
             else s3 = s' \<and> cout st' = cout st)"
    "engine st' = s3" "p_var st' = p_var st" "Smax_var st' = Smax'"
    "resultados st' = resultados st @
       [(p_var st, n, Smax', ddiv (double_of_int Smax') (double_of_int (int (numNodos s1))))]"
    "cerr st' = cerr st @ errs"
proof -
  from assms obtain n Smax' s1 errs where
    g: "generate_single_percolation (engine st) aristas configuracion (p_var st) (Smax_var st) =
       Some (n, Smax', s1, errs)"
    by (auto simp: sweep_body_def bind_eq_Some_conv)
  let ?row = "(p_var st, n, Smax', ddiv (double_of_int Smax') (double_of_int (int (numNodos s1))))"
  from assms g obtain rows clusters s2 where
    v: "(if visualization then
               do { (rs, f) \<leftarrow> cluster_row [0..<numNodos s1] (uf s1);
                    Some (percolation_report st @ [?row],
                          cluster_of_each_node st @ [(p_var st, rs)], s1\<lparr>uf := f\<rparr>) }
             else Some (percolation_report st, cluster_of_each_node st, s1)) = Some (rows, clusters, s2)"
    by (auto simp: sweep_body_def bind_eq_Some_conv Let_def)
  from assms g v obtain perc out s3 where
    h: "(if \<not> percolation st then
               do { (b, s') \<leftarrow> has_percolation s2;
                    if b then Some (True, cout st @ [p_var st], s'\<lparr>p_c := Some (p_var st)\<rparr>)
                    else Some (False, cout st, s') }
             else Some (True, cout st, s2)) = Some (perc, out, s3)"
    and st': "st' = st\<lparr>engine := s3, Smax_var := Smax', percolation := perc,
                    resultados := resultados st @ [?row], percolation_report := rows,
                    cluster_of_each_node := clusters, cout := out, cerr := cerr st @ errs\<rparr>"
    by (auto simp: sweep_body_def bind_eq_Some_conv Let_def)
  obtain f where f: "s2 = s1\<lparr>uf := f\<rparr>"
    "if visualization
     then \<exists>rs. cluster_row [0..<numNodos s1] (uf s1) = Some (rs, f) \<and> rows = percolation_report st @ [?row] \<and>
            clusters = cluster_of_each_node st @ [(p_var st, rs)]
     else f = uf s1 \<and> rows = percolation_report st \<and> clusters = cluster_of_each_node st"
  proof (cases visualization)
    case True
    with v obtain rs f where "cluster_row [0..<numNodos s1] (uf s1) = Some (rs, f)"
      "rows = percolation_report st @ [?row]" "clusters = cluster_of_each_node st @ [(p_var st, rs)]"
      "s2 = s1\<lparr>uf := f\<rparr>"
      by (auto simp: bind_eq_Some_conv)
    with True show ?thesis by (intro that[of f]) auto
  next
    case False
    with v show ?thesis by (intro that[of "uf s1"]) auto
  qed
  have p: "if percolation st then s3 = s1\<lparr>uf := f\<rparr> \<and> percolation st' \<and> cout st' = cout st
     else \<exists>b s'. has_percolation (s1\<lparr>uf := f\<rparr>) = Some (b, s') \<and> percolation st' = b \<and>
            (if b then s3 = s'\<lparr>p_c := Some (p_var st)\<rparr> \<and> cout st' = cout st @ [p_var st]
             else s3 = s' \<and> cout st' = cout st)"
  proof (cases "percolation st")
    case True
    with h st' f(1) show ?thesis by simp
  next
    case False
    with h obtain b s' where hp: "has_percolation s2 = Some (b, s')"
      and r: "(if b then Some (True, cout st @ [p_var st], s'\<lparr>p_c := Some (p_var st)\<rparr>)
                    else Some (False, cout st, s')) = Some (perc, out, s3)"
      by (auto simp: bind_eq_Some_conv)
    have "has_percolation (s1\<lparr>uf := f\<rparr>) = Some (b, s') \<and> percolation st' = b \<and>
            (if b then s3 = s'\<lparr>p_c := Some (p_var st)\<rparr> \<and> cout st' = cout st @ [p_var st]
             else s3 = s' \<and> cout st' = cout st)"
      using r hp st' f(1) by (cases b) auto
    then have "\<exists>b s'. has_percolation (s1\<lparr>uf := f\<rparr>) = Some (b, s') \<and> percolation st' = b \<and>
            (if b then s3 = s'\<lparr>p_c := Some (p_var st)\<rparr> \<and> cout st' = cout st @ [p_var st]
             else s3 = s' \<and> cout st' = cout st)"
      by blast
    with False show ?thesis by (simp only: if_False)
  qed
  have v': "if visualization
     then \<exists>rs. cluster_row [0..<numNodos s1] (uf s1) = Some (rs, f) \<and>
            percolation_report st' = percolation_report st @ [?row] \<and>
            cluster_of_each_node st' = cluster_of_each_node st @ [(p_var st, rs)]
     else f = uf s1 \<and> percolation_report st' = percolation_report st \<and>
          cluster_of_each_node st' = cluster_of_each_node st"
    using f(2) st' by (cases visualization) simp_all
  have e: "engine st' = s3" "p_var st' = p_var st" "Smax_var st' = Smax'"
    "resultados st' = resultados st @ [?row]" "cerr st' = cerr st @ errs"
    using st' by simp_all
  show thesis by (rule that[OF g v' p e])
qed

lemma percolates_cong:
  "view (uf_aux s') = view (uf_aux s) \<Longrightarrow> superTop s' = superTop s \<Longrightarrow>
     superBottom s' = superBottom s \<Longrightarrow> percolates s' = percolates s"
  by (simp add: percolates_view)

lemma percolates_later:
  assumes "percolates s" "later (uf_aux s) (uf_aux s')" "superTop s' = superTop s"
    "superBottom s' = superBottom s"
  shows "percolates s'"
proof -
  from assms(1) have a: "fst (view (uf_aux s)) (superTop s) \<noteq> None"
    "fst (view (uf_aux s)) (superTop s) = fst (view (uf_aux s)) (superBottom s)"
    unfolding percolates_view by blast+
  have "fst (view (uf_aux s')) (superTop s) \<noteq> None"
    using later_None[OF assms(2), of "superTop s"] a(1) by blast
  moreover have "fst (view (uf_aux s')) (superTop s) = fst (view (uf_aux s')) (superBottom s)"
    using a(2) by (rule later_conn[OF assms(2)])
  ultimately show ?thesis unfolding percolates_view assms(3,4) by blast
qed

text \<open>What one pass through the body does to the engine, seen from outside.\<close>

lemma sweep_body_engine:
  assumes "sweep_body aristas configuracion visualization st = Some st'"
  shows "later (uf (engine st)) (uf (engine st')) \<and>
         later (uf_aux (engine st)) (uf_aux (engine st')) \<and>
         numNodos (engine st') = numNodos (engine st) \<and>
         superTop (engine st') = superTop (engine st) \<and>
         superBottom (engine st') = superBottom (engine st) \<and>
         length (nodoActivo (engine st')) = length (nodoActivo (engine st)) \<and>
         (percolation st \<longrightarrow> percolation st' \<and> p_c (engine st') = p_c (engine st)) \<and>
         (\<not> percolation st \<longrightarrow> percolation st' = percolates (engine st') \<and>
            p_c (engine st') = (if percolates (engine st') then Some (p_var st)
                                else p_c (engine st)))"
  using assms
proof (cases rule: sweep_body_Some)
  case (1 n Smax' s1 errs f s3)
  note g = generate_single_percolation_later[OF 1(1)]
  have lf: "later (uf s1) f"
  proof (cases visualization)
    case True
    with 1(2) obtain rs where "cluster_row [0..<numNodos s1] (uf s1) = Some (rs, f)" by auto
    from cluster_row_Some[OF this] show ?thesis by (intro later_view) simp_all
  next
    case False
    with 1(2) show ?thesis by (simp add: later_refl)
  qed
  let ?s2 = "s1\<lparr>uf := f\<rparr>"
  show ?thesis
  proof (cases "percolation st")
    case True
    with 1(3) have "s3 = ?s2" "percolation st'" by simp_all
    with g lf 1(4) True show ?thesis
      by (auto intro: later_trans)
  next
    case False
    with 1(3) obtain b s' where h: "has_percolation ?s2 = Some (b, s')" and b: "percolation st' = b"
      and s3: "s3 = (if b then s'\<lparr>p_c := Some (p_var st)\<rparr> else s')"
      by (auto split: if_splits)
    from h obtain a where a: "s' = ?s2\<lparr>uf_aux := a\<rparr>" "view a = view (uf_aux ?s2)"
      "length (parent a) = length (parent (uf_aux ?s2))"
      "b = (fst (view (uf_aux ?s2)) (superTop ?s2) = fst (view (uf_aux ?s2)) (superBottom ?s2))"
      "fst (view (uf_aux ?s2)) (superTop ?s2) \<noteq> None"
      by (cases rule: has_percolation_Some) auto
    have la: "later (uf_aux s1) a" using a(2,3) by (intro later_view) simp_all
    have pb: "percolates s3 = b"
      using a s3 by (auto simp: percolates_view)
    have e: "uf s3 = f" "uf_aux s3 = a" "numNodos s3 = numNodos s1" "superTop s3 = superTop s1"
      "superBottom s3 = superBottom s1" "nodoActivo s3 = nodoActivo s1"
      "p_c s3 = (if b then Some (p_var st) else p_c s1)"
      using a(1) s3 by simp_all
    from g lf la e pb b 1(4) False show ?thesis
      by (auto intro: later_trans)
  qed
qed


lemma sweep_body_percolates:
  assumes "sweep_body aristas configuracion visualization st = Some st'" "percolates (engine st)"
  shows "percolates (engine st')"
  using sweep_body_engine[OF assms(1)] assms(2)
  by (intro percolates_later[of "engine st" "engine st'"]) simp_all

lemma inputs_ok_cong: "numNodos s' = numNodos s \<Longrightarrow> inputs_ok s' a c = inputs_ok s a c"
  by (simp add: inputs_ok_def)

lemma engine_wf_uf_update:
  assumes "engine_wf s" "later (uf s) f"
  shows "engine_wf (s\<lparr>uf := f\<rparr>)"
  using assms later_wf[OF assms(2)] later_len[OF assms(2)]
  unfolding engine_wf_def by simp


lemma sweep_body_total:
  assumes "engine_wf (engine st)" "inputs_ok (engine st) aristas configuracion"
  shows "\<exists>st'. sweep_body aristas configuracion visualization st = Some st'"
proof -
  from generate_single_percolation_total[OF assms, of "p_var st" "Smax_var st"]
  obtain n Smax' s1 errs where
    g: "generate_single_percolation (engine st) aristas configuracion (p_var st) (Smax_var st) =
       Some (n, Smax', s1, errs)" by blast
  have w1: "engine_wf s1" using generate_single_percolation_wf[OF g assms(1)] .
  have "sweep_body aristas configuracion visualization st \<noteq> None"
  proof (cases visualization)
    case True
    have "\<forall>j\<in>set [0..<numNodos s1]. fst (view (uf s1)) j \<noteq> None"
      using w1 by (simp add: engine_wf_def uf_wf_view)
    from cluster_row_total[OF this] obtain r where "cluster_row [0..<numNodos s1] (uf s1) = Some r"
      by (elim exE)
    then obtain rs f where c: "cluster_row [0..<numNodos s1] (uf s1) = Some (rs, f)"
      by (cases r) simp
    from cluster_row_Some[OF c] have "later (uf s1) f" by (intro later_view) simp_all
    from engine_wf_uf_update[OF w1 this] have "engine_wf (s1\<lparr>uf := f\<rparr>)" .
    from has_percolation_total[OF engine_wf_terminals[OF this]]
    obtain b s' where h: "has_percolation (s1\<lparr>uf := f\<rparr>) = Some (b, s')" by (elim exE)
    show ?thesis
      unfolding sweep_body_def g Let_def bind.bind_lunit prod.case
      using True c h by (cases "percolation st"; cases b) simp_all
  next
    case False
    from has_percolation_total[OF engine_wf_terminals[OF w1]]
    obtain b s' where h: "has_percolation s1 = Some (b, s')" by (elim exE)
    show ?thesis
      unfolding sweep_body_def g Let_def bind.bind_lunit prod.case
      using False h by (cases "percolation st"; cases b) simp_all
  qed
  then show ?thesis by (cases "sweep_body aristas configuracion visualization st") simp_all
qed

lemma sweep_iter_front:
  "sweep_iter (Suc k) aristas configuracion step visualization st =
     do { st1 \<leftarrow> sweep_body aristas configuracion visualization st;
          sweep_iter k aristas configuracion step visualization
            (st1\<lparr>p_var := dadd (p_var st1) step\<rparr>) }"
proof (induction k)
  case 0
  show ?case by simp
next
  case (Suc k)
  have "sweep_iter (Suc (Suc k)) aristas configuracion step visualization st =
      do { st1 \<leftarrow> sweep_iter (Suc k) aristas configuracion step visualization st;
          st2 \<leftarrow> sweep_body aristas configuracion visualization st1;
          Some (st2\<lparr>p_var := dadd (p_var st2) step\<rparr>) }"
    by (simp only: sweep_iter.simps)
  also have "\<dots> = do { st0 \<leftarrow> sweep_body aristas configuracion visualization st;
          st1 \<leftarrow> sweep_iter k aristas configuracion step visualization
            (st0\<lparr>p_var := dadd (p_var st0) step\<rparr>);
          st2 \<leftarrow> sweep_body aristas configuracion visualization st1;
          Some (st2\<lparr>p_var := dadd (p_var st2) step\<rparr>) }"
    by (simp only: Suc.IH bind_assoc)
  also have "\<dots> = do { st0 \<leftarrow> sweep_body aristas configuracion visualization st;
          sweep_iter (Suc k) aristas configuracion step visualization
            (st0\<lparr>p_var := dadd (p_var st0) step\<rparr>) }"
    by (simp only: sweep_iter.simps)
  finally show ?case .
qed

lemma sweep_iter_le:
  assumes "sweep_iter k aristas configuracion step visualization st = Some st'" "j \<le> k"
  shows "\<exists>stj. sweep_iter j aristas configuracion step visualization st = Some stj"
  using assms
proof (induction k arbitrary: st')
  case 0
  then show ?case by simp
next
  case (Suc k)
  show ?case
  proof (cases "j = Suc k")
    case True
    with Suc.prems show ?thesis by blast
  next
    case False
    with Suc.prems have j: "j \<le> k" by simp
    from Suc.prems(1) obtain st1 where "sweep_iter k aristas configuracion step visualization st = Some st1"
      by (auto simp: bind_eq_Some_conv)
    from Suc.IH[OF this j] show ?thesis .
  qed
qed

text \<open>A run of the loop that returns is a finite number of passes through the body.\<close>

lemma sweep_loop_iter:
  assumes "sweep_loop aristas configuracion step visualization st = Some fin"
  shows "\<exists>K. sweep_iter K aristas configuracion step visualization st = Some fin \<and>
           \<not> dle (p_var fin) sweep_bound \<and>
           (\<forall>k<K. \<exists>stk. sweep_iter k aristas configuracion step visualization st = Some stk \<and>
                         dle (p_var stk) sweep_bound)"
  using assms
proof (induction rule: sweep_loop.raw_induct[rotated, consumes 1])
  case (1 loop aristas configuracion step visualization st fin)
  show ?case
  proof (cases "dle (p_var st) sweep_bound")
    case False
    with 1(2) have "fin = st" by simp
    with False show ?thesis by (intro exI[of _ 0]) simp
  next
    case True
    with 1(2) obtain st1 where b: "sweep_body aristas configuracion visualization st = Some st1"
      and l: "loop aristas configuracion step visualization (st1\<lparr>p_var := dadd (p_var st1) step\<rparr>) = Some fin"
      by (auto simp: bind_eq_Some_conv)
    let ?st2 = "st1\<lparr>p_var := dadd (p_var st1) step\<rparr>"
    from 1(1)[OF l] obtain K where
      K: "sweep_iter K aristas configuracion step visualization ?st2 = Some fin"
         "\<not> dle (p_var fin) sweep_bound"
         "\<forall>k<K. \<exists>stk. sweep_iter k aristas configuracion step visualization ?st2 = Some stk \<and>
                         dle (p_var stk) sweep_bound"
      by blast
    have "sweep_iter (Suc K) aristas configuracion step visualization st = Some fin"
      using b K(1) by (simp only: sweep_iter_front bind.bind_lunit)
    moreover have "\<exists>stk. sweep_iter k aristas configuracion step visualization st = Some stk \<and>
                         dle (p_var stk) sweep_bound" if "k < Suc K" for k
    proof (cases k)
      case 0
      with True show ?thesis by simp
    next
      case (Suc k')
      with that K(3) obtain stk where
        "sweep_iter k' aristas configuracion step visualization ?st2 = Some stk" "dle (p_var stk) sweep_bound"
        by auto
      with b Suc show ?thesis by (simp only: sweep_iter_front bind.bind_lunit) simp
    qed
    ultimately show ?thesis using K(2) by (intro exI[of _ "Suc K"]) blast
  qed
qed


lemma sweep_iter_Suc:
  assumes "sweep_iter (Suc k) aristas configuracion step visualization st = Some st''"
  obtains st' st1 where "sweep_iter k aristas configuracion step visualization st = Some st'"
    "sweep_body aristas configuracion visualization st' = Some st1"
    "st'' = st1\<lparr>p_var := dadd (p_var st1) step\<rparr>"
  using assms by (auto simp: bind_eq_Some_conv)

lemma sweep_iter_flag:
  assumes "sweep_iter k aristas configuracion step visualization st0 = Some st" "\<not> percolation st0"
  shows "percolation st \<longleftrightarrow> 0 < k \<and> percolates (engine st)"
  using assms(1)
proof (induction k arbitrary: st)
  case 0
  with assms(2) show ?case by simp
next
  case (Suc k)
  from Suc.prems obtain st' st1 where
    i: "sweep_iter k aristas configuracion step visualization st0 = Some st'"
    and b: "sweep_body aristas configuracion visualization st' = Some st1"
    and st: "st = st1\<lparr>p_var := dadd (p_var st1) step\<rparr>"
    by (rule sweep_iter_Suc)
  note e = sweep_body_engine[OF b]
  show ?case
  proof (cases "percolation st'")
    case True
    with Suc.IH[OF i] have "percolates (engine st')" by simp
    from sweep_body_percolates[OF b this] e True st show ?thesis by simp
  next
    case False
    with e st show ?thesis by simp
  qed
qed

lemma sweep_iter_percolates:
  assumes "sweep_iter i aristas configuracion step visualization st0 = Some sti"
    "percolates (engine sti)" "i \<le> k"
    "sweep_iter k aristas configuracion step visualization st0 = Some stk"
  shows "percolates (engine stk)"
  using assms(3,4)
proof (induction k arbitrary: stk)
  case 0
  with assms(1,2) show ?case by simp
next
  case (Suc k)
  show ?case
  proof (cases "i = Suc k")
    case True
    with Suc.prems assms(1,2) show ?thesis by simp
  next
    case False
    with Suc.prems have ik: "i \<le> k" by simp
    from Suc.prems(2) obtain st' st1 where
      i: "sweep_iter k aristas configuracion step visualization st0 = Some st'"
      and b: "sweep_body aristas configuracion visualization st' = Some st1"
      and st: "stk = st1\<lparr>p_var := dadd (p_var st1) step\<rparr>"
      by (rule sweep_iter_Suc)
    from sweep_body_percolates[OF b Suc.IH[OF ik i]] st show ?thesis by simp
  qed
qed

lemma sweep_iter_p_c_kept:
  assumes "sweep_iter i aristas configuracion step visualization st0 = Some sti"
    "percolation sti" "i \<le> k"
    "sweep_iter k aristas configuracion step visualization st0 = Some stk"
  shows "percolation stk \<and> p_c (engine stk) = p_c (engine sti)"
  using assms(3,4)
proof (induction k arbitrary: stk)
  case 0
  with assms(1,2) show ?case by simp
next
  case (Suc k)
  show ?case
  proof (cases "i = Suc k")
    case True
    with Suc.prems assms(1,2) show ?thesis by simp
  next
    case False
    with Suc.prems have ik: "i \<le> k" by simp
    from Suc.prems(2) obtain st' st1 where
      i: "sweep_iter k aristas configuracion step visualization st0 = Some st'"
      and b: "sweep_body aristas configuracion visualization st' = Some st1"
      and st: "stk = st1\<lparr>p_var := dadd (p_var st1) step\<rparr>"
      by (rule sweep_iter_Suc)
    from sweep_body_engine[OF b] Suc.IH[OF ik i] st show ?thesis by simp
  qed
qed

subsection \<open>What the boundary structure joins\<close>

lemma same_set_iff:
  "(x, y) \<in> same_set u \<longleftrightarrow> fst (view u) x \<noteq> None \<and> fst (view u) x = fst (view u) y"
  by (simp add: same_set_def view_def)

lemma trans_same_set: "trans (same_set u)"
  unfolding same_set_def trans_def by (simp del: not_None_eq) metis

lemma sym_same_set: "sym (same_set u)"
  unfolding same_set_def sym_def by (simp del: not_None_eq) metis

lemma trancl_sub: "r \<subseteq> s \<Longrightarrow> r\<^sup>+ \<subseteq> s\<^sup>+"
proof
  fix z assume r: "r \<subseteq> s" and z: "z \<in> r\<^sup>+"
  from z r show "z \<in> s\<^sup>+" by (rule trancl_mono)
qed

lemma trancl_least: "r \<subseteq> s \<Longrightarrow> trans s \<Longrightarrow> r\<^sup>+ \<subseteq> s"
  using trancl_sub[of r s] by (simp add: trancl_id)

lemma trancl_absorb: "((e \<union> p)\<^sup>+ \<union> q)\<^sup>+ = (e \<union> p \<union> q)\<^sup>+"
proof
  have "(e \<union> p)\<^sup>+ \<subseteq> (e \<union> p \<union> q)\<^sup>+" by (rule trancl_sub) simp
  moreover have "q \<subseteq> (e \<union> p \<union> q)\<^sup>+" by (rule subsetI) (simp add: r_into_trancl')
  ultimately have "(e \<union> p)\<^sup>+ \<union> q \<subseteq> (e \<union> p \<union> q)\<^sup>+" by simp
  then show "((e \<union> p)\<^sup>+ \<union> q)\<^sup>+ \<subseteq> (e \<union> p \<union> q)\<^sup>+"
    by (rule trancl_least) simp
  have "e \<union> p \<subseteq> (e \<union> p)\<^sup>+" by (rule subsetI) (simp add: r_into_trancl')
  then have "e \<union> p \<union> q \<subseteq> (e \<union> p)\<^sup>+ \<union> q" by blast
  then show "(e \<union> p \<union> q)\<^sup>+ \<subseteq> ((e \<union> p)\<^sup>+ \<union> q)\<^sup>+"
    by (rule trancl_sub)
qed

text \<open>A union adds the pair and what follows from it, nothing else.\<close>

lemma unite_same_set:
  assumes "unite u a b = Some u'"
  shows "same_set u' = (same_set u \<union> {(a, b), (b, a)})\<^sup>+"
proof
  let ?G = "same_set u \<union> {(a, b), (b, a)}"
  have "same_set u \<subseteq> same_set u'"
  proof
    fix z assume z: "z \<in> same_set u"
    obtain x y where xy: "z = (x, y)" by (cases z)
    from z xy have "(x, y) \<in> same_set u" by simp
    then have e: "fst (view u) x \<noteq> None" "fst (view u) x = fst (view u) y"
      unfolding same_set_iff by blast+
    from unite_conn_mono[OF assms e(2)] unite_None_iff[OF assms, of x] e(1)
    have "fst (view u') x \<noteq> None \<and> fst (view u') x = fst (view u') y" by blast
    then have "(x, y) \<in> same_set u'" unfolding same_set_iff .
    with xy show "z \<in> same_set u'" by simp
  qed
  moreover have "(a, b) \<in> same_set u'" "(b, a) \<in> same_set u'"
    unfolding same_set_iff using unite_joins[OF assms] by metis+
  ultimately have "?G \<subseteq> same_set u'" by blast
  then show "?G\<^sup>+ \<subseteq> same_set u'"
    by (rule trancl_least) (rule trans_same_set)
  have chain: "(x, y) \<in> ?G\<^sup>+" if "(x, c) \<in> ?G" "(c, d) \<in> ?G" "(d, y) \<in> ?G" for x c d y
    using that by (blast intro: trancl.intros)
  show "same_set u' \<subseteq> ?G\<^sup>+"
  proof
    fix z assume z: "z \<in> same_set u'"
    obtain x y where xy: "z = (x, y)" by (cases z)
    from z xy have "(x, y) \<in> same_set u'" by simp
    then have e': "fst (view u') x \<noteq> None" "fst (view u') x = fst (view u') y"
      unfolding same_set_iff by blast+
    from assms show "z \<in> ?G\<^sup>+"
    proof (cases rule: unite_cases)
      case (same ra)
      with e' have "(x, y) \<in> same_set u" by (simp only: same_set_iff) simp
      with xy show ?thesis by blast
    next
      case (merge c r)
      from merge(7) have m: "fst (view u') = merged (fst (view u)) c r" by simp
      from e'(1) obtain rx where rx: "fst (view u) x = Some rx"
        by (cases "fst (view u) x") (simp_all add: m merged_def)
      from e' have "fst (view u') y \<noteq> None" by metis
      then obtain ry where ry: "fst (view u) y = Some ry"
        by (cases "fst (view u) y") (simp_all add: m merged_def)
      from e'(2) rx ry have e: "(if rx = c then r else rx) = (if ry = c then r else ry)"
        by (simp add: m merged_def)
      show ?thesis
      proof (cases "rx = ry")
        case True
        with rx ry have "(x, y) \<in> same_set u" by (simp only: same_set_iff) simp
        with xy show ?thesis by blast
      next
        case False
        with e have cr: "(rx = c \<and> ry = r) \<or> (rx = r \<and> ry = c)" by (auto split: if_splits)
        from merge(4) show ?thesis
        proof
          assume ab: "fst (view u) a = Some c \<and> fst (view u) b = Some r"
          from cr show ?thesis
          proof
            assume "rx = c \<and> ry = r"
            with rx ry ab have "(x, a) \<in> same_set u" "(b, y) \<in> same_set u"
              by (simp_all only: same_set_iff) simp_all
            then have "(x, y) \<in> ?G\<^sup>+" by (intro chain[of x a b y]) simp_all
            with xy show ?thesis by simp
          next
            assume "rx = r \<and> ry = c"
            with rx ry ab have "(x, b) \<in> same_set u" "(a, y) \<in> same_set u"
              by (simp_all only: same_set_iff) simp_all
            then have "(x, y) \<in> ?G\<^sup>+" by (intro chain[of x b a y]) simp_all
            with xy show ?thesis by simp
          qed
        next
          assume ab: "fst (view u) a = Some r \<and> fst (view u) b = Some c"
          from cr show ?thesis
          proof
            assume "rx = c \<and> ry = r"
            with rx ry ab have "(x, b) \<in> same_set u" "(a, y) \<in> same_set u"
              by (simp_all only: same_set_iff) simp_all
            then have "(x, y) \<in> ?G\<^sup>+" by (intro chain[of x b a y]) simp_all
            with xy show ?thesis by simp
          next
            assume "rx = r \<and> ry = c"
            with rx ry ab have "(x, a) \<in> same_set u" "(b, y) \<in> same_set u"
              by (simp_all only: same_set_iff) simp_all
            then have "(x, y) \<in> ?G\<^sup>+" by (intro chain[of x a b y]) simp_all
            with xy show ?thesis by simp
          qed
        qed
      qed
    qed
  qed
qed

lemma supernodes_loop_same_set:
  assumes "supernodes_loop t b base js a = Some a'"
  shows "same_set a' =
           (same_set a \<union> ({(t, j) | j. j \<in> set js} \<union> {(b, base + j) | j. j \<in> set js}) \<union>
              ({(t, j) | j. j \<in> set js} \<union> {(b, base + j) | j. j \<in> set js})\<inverse>)\<^sup>+"
  using assms
proof (induction js arbitrary: a)
  case Nil
  then show ?case using trans_same_set[of a] by (simp add: trancl_id)
next
  case (Cons j js)
  let ?W = "{(t, i) | i. i \<in> set js} \<union> {(b, base + i) | i. i \<in> set js}"
  from Cons.prems obtain a1 a2 where a1: "unite a t j = Some a1"
    and a2: "unite a1 b (base + j) = Some a2"
    and r: "supernodes_loop t b base js a2 = Some a'"
    by (auto simp: bind_eq_Some_conv)
  have "same_set a2 = ((same_set a \<union> {(t, j), (j, t)})\<^sup>+ \<union> {(b, base + j), (base + j, b)})\<^sup>+"
    using unite_same_set[OF a1] unite_same_set[OF a2] by simp
  also have "\<dots> = (same_set a \<union> {(t, j), (j, t)} \<union> {(b, base + j), (base + j, b)})\<^sup>+"
    by (rule trancl_absorb)
  finally have s2: "same_set a2 =
       (same_set a \<union> ({(t, j), (j, t)} \<union> {(b, base + j), (base + j, b)}))\<^sup>+"
    by (simp add: Un_assoc)
  have "same_set a' = (same_set a2 \<union> ?W \<union> ?W\<inverse>)\<^sup>+" using Cons.IH[OF r] .
  also have "\<dots> = ((same_set a \<union> ({(t, j), (j, t)} \<union> {(b, base + j), (base + j, b)}))\<^sup>+ \<union>
                      (?W \<union> ?W\<inverse>))\<^sup>+"
    by (simp add: s2 Un_assoc)
  also have "\<dots> = (same_set a \<union> ({(t, j), (j, t)} \<union> {(b, base + j), (base + j, b)}) \<union>
                      (?W \<union> ?W\<inverse>))\<^sup>+"
    by (rule trancl_absorb)
  also have "same_set a \<union> ({(t, j), (j, t)} \<union> {(b, base + j), (base + j, b)}) \<union> (?W \<union> ?W\<inverse>) =
      same_set a \<union> ({(t, i) | i. i \<in> set (j # js)} \<union> {(b, base + i) | i. i \<in> set (j # js)}) \<union>
              ({(t, i) | i. i \<in> set (j # js)} \<union> {(b, base + i) | i. i \<in> set (j # js)})\<inverse>"
    by auto
  finally show ?case .
qed

lemma initialize_supernodes_same_set:
  assumes "initialize_supernodes s = Some s'" "superTop s = numNodos s"
    "superBottom s = numNodos s + 1"
  shows "same_set (uf_aux s') =
           (same_set (uf_aux s) \<union> wiring (numNodos s) \<union> (wiring (numNodos s))\<inverse>)\<^sup>+"
proof -
  from assms(1) obtain a where
    l: "supernodes_loop (superTop s) (superBottom s) (numNodos s - grid_size (numNodos s))
          [0..<grid_size (numNodos s)] (uf_aux s) = Some a" and s': "s' = s\<lparr>uf_aux := a\<rparr>"
    by (auto simp: initialize_supernodes_def bind_eq_Some_conv)
  have "{(superTop s, j) | j. j \<in> set [0..<grid_size (numNodos s)]} \<union>
        {(superBottom s, numNodos s - grid_size (numNodos s) + j) | j.
           j \<in> set [0..<grid_size (numNodos s)]} = wiring (numNodos s)"
    using assms(2,3) by (auto simp: wiring_def)
  with supernodes_loop_same_set[OF l] s' show ?thesis by simp
qed

lemma same_set_view: "view u' = view u \<Longrightarrow> same_set u' = same_set u"
  by (simp add: same_set_def view_def)

lemma joined_by_refl: "joined_by X u u"
proof -
  have "same_set u = (same_set u \<union> {} \<union> {}\<inverse>)\<^sup>+"
    using trans_same_set[of u] by (simp add: trancl_id)
  then show ?thesis unfolding joined_by_def by blast
qed

lemma joined_by_view: "view u' = view u \<Longrightarrow> joined_by X u u'"
  using joined_by_refl[of X u] same_set_view[of u' u] unfolding joined_by_def by simp

lemma joined_by_trans:
  assumes "joined_by X u v" "joined_by X v w"
  shows "joined_by X u w"
proof -
  from assms obtain E F where E: "E \<subseteq> X" "same_set v = (same_set u \<union> E \<union> E\<inverse>)\<^sup>+"
    and F: "F \<subseteq> X" "same_set w = (same_set v \<union> F \<union> F\<inverse>)\<^sup>+"
    unfolding joined_by_def by blast
  have "same_set w = ((same_set u \<union> (E \<union> E\<inverse>))\<^sup>+ \<union> (F \<union> F\<inverse>))\<^sup>+"
    using E(2) F(2) by (simp add: Un_assoc)
  also have "\<dots> = (same_set u \<union> (E \<union> E\<inverse>) \<union> (F \<union> F\<inverse>))\<^sup>+" by (rule trancl_absorb)
  also have "same_set u \<union> (E \<union> E\<inverse>) \<union> (F \<union> F\<inverse>) = same_set u \<union> (E \<union> F) \<union> (E \<union> F)\<inverse>"
    by auto
  finally have "same_set w = (same_set u \<union> (E \<union> F) \<union> (E \<union> F)\<inverse>)\<^sup>+" .
  moreover from E(1) F(1) have "E \<union> F \<subseteq> X" by simp
  ultimately show ?thesis unfolding joined_by_def by blast
qed

lemma joined_by_mono: "joined_by X u v \<Longrightarrow> X \<subseteq> Y \<Longrightarrow> joined_by Y u v"
  unfolding joined_by_def by blast

lemma unite_joined_by:
  assumes "unite u a b = Some u'"
  shows "joined_by {(a, b)} u u'"
proof -
  have "same_set u' = (same_set u \<union> {(a, b)} \<union> {(a, b)}\<inverse>)\<^sup>+"
  proof -
    have "same_set u \<union> {(a, b)} \<union> {(a, b)}\<inverse> = same_set u \<union> {(a, b), (b, a)}" by auto
    with unite_same_set[OF assms] show ?thesis by simp
  qed
  then show ?thesis unfolding joined_by_def by blast
qed

lemma connect_edges_joined_by:
  "connect_edges es act f a S = Some (f', a', S') \<Longrightarrow>
     joined_by (set es \<inter> {..<length act} \<times> {..<length act}) a a'"
proof (induction es arbitrary: f a S)
  case Nil
  then show ?case by (simp add: joined_by_refl)
next
  case (Cons e es)
  obtain u v where e: "e = (u, v)" by (cases e)
  show ?case
  proof (cases "act ! u \<and> act ! v")
    case False
    with Cons.prems e have "connect_edges es act f a S = Some (f', a', S')"
      by (auto split: if_splits)
    from Cons.IH[OF this] show ?thesis by (rule joined_by_mono) auto
  next
    case True
    with Cons.prems e have l: "u < length act" "v < length act"
      by (auto split: if_splits)
    from True Cons.prems e obtain f1 s1 f2 s2 f3 a1 where
      "unite f u v = Some f1" "get_size f1 u = Some (s1, f2)" "get_size f2 v = Some (s2, f3)"
      and a1: "unite a u v = Some a1"
      and r: "connect_edges es act f3 a1 (max S (max (int s1) (int s2))) = Some (f', a', S')"
      by (auto simp: bind_eq_Some_conv split: if_splits)
    have "joined_by (set (e # es) \<inter> {..<length act} \<times> {..<length act}) a a1"
      using unite_joined_by[OF a1] by (rule joined_by_mono) (simp add: e l)
    moreover have "joined_by (set (e # es) \<inter> {..<length act} \<times> {..<length act}) a1 a'"
      using Cons.IH[OF r] by (rule joined_by_mono) auto
    ultimately show ?thesis by (rule joined_by_trans)
  qed
qed

lemma generate_single_percolation_joined_by:
  assumes "generate_single_percolation s aristas configuracion p Smax = Some (n, Smax', s', errs)"
  shows "joined_by (set aristas \<inter> {..<length (nodoActivo s)} \<times> {..<length (nodoActivo s)})
           (uf_aux s) (uf_aux s')"
  using assms
proof (cases rule: generate_single_percolation_Some)
  case rejected
  then show ?thesis by (simp add: joined_by_refl)
next
  case (advanced act f a)
  from activate_char[OF advanced(2)] have "length act = length (nodoActivo s)" by simp
  with connect_edges_joined_by[OF advanced(3)] advanced(5) show ?thesis by simp
qed

lemma sweep_body_joined_by:
  assumes "sweep_body aristas configuracion visualization st = Some st'"
  shows "joined_by (set aristas \<inter> {..<length (nodoActivo (engine st))} \<times>
                                     {..<length (nodoActivo (engine st))})
           (uf_aux (engine st)) (uf_aux (engine st'))"
  using assms
proof (cases rule: sweep_body_Some)
  case (1 n Smax' s1 errs f s3)
  let ?X = "set aristas \<inter> {..<length (nodoActivo (engine st))} \<times>
                                     {..<length (nodoActivo (engine st))}"
  have g: "joined_by ?X (uf_aux (engine st)) (uf_aux s1)"
    using generate_single_percolation_joined_by[OF 1(1)] .
  have "view (uf_aux s3) = view (uf_aux s1)"
  proof (cases "percolation st")
    case True
    with 1(3) show ?thesis by simp
  next
    case False
    with 1(3) obtain b s' where h: "has_percolation (s1\<lparr>uf := f\<rparr>) = Some (b, s')"
      and s3: "s3 = s'\<lparr>p_c := Some (p_var st)\<rparr> \<or> s3 = s'"
      by (auto split: if_splits)
    from h obtain a where "s' = s1\<lparr>uf := f, uf_aux := a\<rparr>" "view a = view (uf_aux s1)"
      by (cases rule: has_percolation_Some) simp
    with s3 show ?thesis by auto
  qed
  then have "joined_by ?X (uf_aux s1) (uf_aux s3)" by (rule joined_by_view)
  with g have "joined_by ?X (uf_aux (engine st)) (uf_aux s3)" by (rule joined_by_trans)
  with 1(4) show ?thesis by simp
qed

lemma sweep_iter_joined_by:
  "sweep_iter k aristas configuracion step visualization st = Some st' \<Longrightarrow>
     joined_by (set aristas \<inter> {..<length (nodoActivo (engine st))} \<times>
                                  {..<length (nodoActivo (engine st))})
       (uf_aux (engine st)) (uf_aux (engine st')) \<and>
     length (nodoActivo (engine st')) = length (nodoActivo (engine st))"
proof (induction k arbitrary: st')
  case 0
  then show ?case by (simp add: joined_by_refl)
next
  case (Suc k)
  let ?X = "set aristas \<inter> {..<length (nodoActivo (engine st))} \<times>
                                     {..<length (nodoActivo (engine st))}"
  from Suc.prems obtain st1 st2 where
    i: "sweep_iter k aristas configuracion step visualization st = Some st1"
    and b: "sweep_body aristas configuracion visualization st1 = Some st2"
    and e: "st' = st2\<lparr>p_var := dadd (p_var st2) step\<rparr>"
    by (rule sweep_iter_Suc)
  from Suc.IH[OF i] have j: "joined_by ?X (uf_aux (engine st)) (uf_aux (engine st1))"
    and l: "length (nodoActivo (engine st1)) = length (nodoActivo (engine st))" by simp_all
  from sweep_body_joined_by[OF b] l
  have "joined_by ?X (uf_aux (engine st1)) (uf_aux (engine st2))" by simp
  with j have "joined_by ?X (uf_aux (engine st)) (uf_aux (engine st2))"
    by (rule joined_by_trans)
  moreover from sweep_body_engine[OF b] l
  have "length (nodoActivo (engine st2)) = length (nodoActivo (engine st))" by simp
  ultimately show ?case using e by simp
qed

lemma sweep_loop_joined_by:
  assumes "sweep_loop aristas configuracion step visualization st = Some fin"
  shows "joined_by (set aristas \<inter> {..<length (nodoActivo (engine st))} \<times>
                                  {..<length (nodoActivo (engine st))})
           (uf_aux (engine st)) (uf_aux (engine fin))"
proof -
  from sweep_loop_iter[OF assms] obtain K where
    "sweep_iter K aristas configuracion step visualization st = Some fin" by blast
  from sweep_iter_joined_by[OF this] show ?thesis by simp
qed

text \<open>The structure of the constructor joins nothing.\<close>

lemma UnionFind_init_same_set: "same_set (UnionFind_init n) = Id_on {..<n}"
proof -
  have o: "fst (view (UnionFind_init n)) i = None" if "n \<le> i" for i
    using that root_of_out[of "[0..<n]" i] by (simp add: view_def UnionFind_init_def)
  have "(x, y) \<in> same_set (UnionFind_init n) \<longleftrightarrow> (x, y) \<in> Id_on {..<n}" for x y
  proof (cases "x < n")
    case x: True
    show ?thesis
    proof (cases "y < n")
      case True
      with x show ?thesis by (simp add: same_set_iff UnionFind_init_view Id_on_iff)
    next
      case False
      with x o[of y] show ?thesis by (simp add: same_set_iff UnionFind_init_view Id_on_iff)
    qed
  next
    case False
    with o[of x] show ?thesis by (simp add: same_set_iff Id_on_iff)
  qed
  then show ?thesis by (intro set_eqI) (simp add: split_paired_all)
qed

lemma grid_size_half: "2 \<le> n \<Longrightarrow> 2 * grid_size n \<le> n"
proof (cases "grid_size n \<le> 1")
  case True
  assume "2 \<le> n"
  with True show ?thesis by simp
next
  case False
  then have "2 \<le> grid_size n" by simp
  then have "2 * grid_size n \<le> grid_size n * grid_size n" by (rule mult_le_mono1)
  from this grid_size_sq[of n] show ?thesis by (rule le_trans)
qed

text \<open>The wiring on a structure that joins nothing: two blocks and singletons.\<close>

lemma wiring_closure:
  assumes "2 \<le> n"
  shows "(Id_on {..<n + 2} \<union> wiring n \<union> (wiring n)\<inverse>)\<^sup>+ = wired n"
proof
  let ?G = "Id_on {..<n + 2} \<union> wiring n \<union> (wiring n)\<inverse>"
  define T where "T = insert n {0..<grid_size n}"
  define B where "B = insert (n + 1) {n - grid_size n..<n}"
  have h: "2 * grid_size n \<le> n" using assms by (rule grid_size_half)
  have d: "\<not> (x \<in> T \<and> x \<in> B)" for x using h by (auto simp: T_def B_def)
  have lt: "x < n + 2" if "x \<in> T \<or> x \<in> B" for x
    using that grid_size_le[of n] by (auto simp: T_def B_def)
  have wd: "wired n = {(x, y). x < n + 2 \<and> y < n + 2 \<and>
              (x = y \<or> x \<in> T \<and> y \<in> T \<or> x \<in> B \<and> y \<in> B)}"
    by (simp only: wired_def T_def B_def)
  have t: "trans (wired n)"
    unfolding trans_def wd using d by blast
  have wT: "(n, i) \<in> T \<times> T" if "i < grid_size n" for i using that by (simp add: T_def)
  have wB: "(n + 1, n - grid_size n + i) \<in> B \<times> B" if "i < grid_size n" for i
  proof -
    from that grid_size_le[of n] have "n - grid_size n \<le> n - grid_size n + i \<and> n - grid_size n + i < n"
      by arith
    then have "n - grid_size n + i \<in> {n - grid_size n..<n}" by (simp only: atLeastLessThan_iff)
    then have "n - grid_size n + i \<in> B" unfolding B_def by (rule insertI2)
    moreover have "n + 1 \<in> B" unfolding B_def by (rule insertI1)
    ultimately show ?thesis by (intro SigmaI)
  qed
  have "wiring n \<subseteq> T \<times> T \<union> B \<times> B"
  proof
    fix z assume "z \<in> wiring n"
    then obtain i where "i < grid_size n" "z = (n, i) \<or> z = (n + 1, n - grid_size n + i)"
      unfolding wiring_def by blast
    with wT[of i] wB[of i] show "z \<in> T \<times> T \<union> B \<times> B" by blast
  qed
  then have "(wiring n)\<inverse> \<subseteq> T \<times> T \<union> B \<times> B" and "wiring n \<subseteq> T \<times> T \<union> B \<times> B"
    by blast+
  moreover have "T \<times> T \<union> B \<times> B \<subseteq> wired n" unfolding wd using lt by blast
  moreover have "Id_on {..<n + 2} \<subseteq> wired n" unfolding wd by (auto simp: Id_on_iff)
  ultimately have "?G \<subseteq> wired n" by blast
  then show "?G\<^sup>+ \<subseteq> wired n" using t by (rule trancl_least)
  have w1: "(n, i) \<in> wiring n" if "i < grid_size n" for i
    using that unfolding wiring_def by blast
  have w2: "(n + 1, j) \<in> wiring n" if "n - grid_size n \<le> j" "j < n" for j
  proof -
    from that have "j = n - grid_size n + (j - (n - grid_size n))"
      "j - (n - grid_size n) < grid_size n"
      by simp_all
    then show ?thesis unfolding wiring_def by blast
  qed
  have r: "(x, x) \<in> ?G" if "x < n + 2" for x using that by (simp add: Id_on_iff)
  have top: "(x, n) \<in> ?G \<and> (n, x) \<in> ?G" if "x \<in> T" for x
  proof (cases "x = n")
    case True
    with r[of n] show ?thesis by simp
  next
    case False
    with that have "x < grid_size n" by (simp add: T_def)
    from w1[OF this] show ?thesis by simp
  qed
  have bottom: "(x, n + 1) \<in> ?G \<and> (n + 1, x) \<in> ?G" if "x \<in> B" for x
  proof (cases "x = n + 1")
    case True
    with r[of "n + 1"] show ?thesis by simp
  next
    case False
    with that have "n - grid_size n \<le> x" "x < n" by (simp_all add: B_def)
    from w2[OF this] show ?thesis by simp
  qed
  show "wired n \<subseteq> ?G\<^sup>+"
  proof
    fix z assume z: "z \<in> wired n"
    obtain x y where xy: "z = (x, y)" by (cases z)
    with z consider "x = y" "x < n + 2" | "x \<in> T" "y \<in> T" | "x \<in> B" "y \<in> B"
      unfolding wd by blast
    then have "(x, y) \<in> ?G\<^sup>+"
    proof cases
      case 1
      with r[of x] show ?thesis by blast
    next
      case 2
      from top[OF 2(1)] top[OF 2(2)] have "(x, n) \<in> ?G" "(n, y) \<in> ?G" by blast+
      then show ?thesis by (rule trancl.intros(2)[OF r_into_trancl'])
    next
      case 3
      from bottom[OF 3(1)] bottom[OF 3(2)] have "(x, n + 1) \<in> ?G" "(n + 1, y) \<in> ?G" by blast+
      then show ?thesis by (rule trancl.intros(2)[OF r_into_trancl'])
    qed
    with xy show "z \<in> ?G\<^sup>+" by simp
  qed
qed

lemma wired_separate: "2 \<le> n \<Longrightarrow> (n, n + 1) \<notin> wired n"
  using grid_size_half[of n] grid_size_le[of n] by (simp add: wired_def)

subsection \<open>The sweep with and without the sink\<close>






lemma same_engine_up_to_paths_sym: "same_engine_up_to_paths s t \<Longrightarrow> same_engine_up_to_paths t s"
  by (simp add: same_engine_up_to_paths_def)









lemma same_up_to_sink_sym: "same_up_to_sink a b \<Longrightarrow> same_up_to_sink b a"
  by (simp add: same_up_to_sink_def same_engine_up_to_paths_sym)





section \<open>The claims\<close>

text \<open>
  C1. A call of the incremental step with \<open>p < current_p\<close> changes nothing: the engine
  that comes back is the one that went in (activation vector, both disjoint-set
  structures, \<open>current_p\<close>), \<open>Smax\<close> is returned as given, the error line is written to
  \<^verbatim>\<open>cerr\<close>, and the count returned is \<^verbatim>\<open>uf.Ncc(numNodos)\<close> of the unchanged engine,
  which is the count the previous call returned. On a well-formed engine the call
  does return.
\<close>

theorem order_violation_leaves_state:
  assumes "dlt p (current_p s)"
  shows "generate_single_percolation s aristas configuracion p Smax =
           map_option (\<lambda>n. (n, Smax, s, [order_error])) (Ncc (uf s) (numNodos s)) \<and>
         (generate_single_percolation s0 aristas0 configuracion0 p0 Smax0 = Some (n0, Smax1, s, errs0)
            \<longrightarrow> generate_single_percolation s aristas configuracion p Smax =
                  Some (n0, Smax, s, [order_error])) \<and>
         (engine_wf s \<longrightarrow> Ncc (uf s) (numNodos s) \<noteq> None)"
  using assms generate_single_percolation_count[of s0 aristas0 configuracion0 p0 Smax0 n0 Smax1 s errs0]
  by (auto simp: generate_single_percolation_error engine_wf_def Ncc_def)


theorem order_violation_leaves_state_witness:
  "dlt (Fin 0) (current_p
      \<lparr>uf = \<lparr>parent = [0, 0], size_uf = [2, 1]\<rparr>,
       uf_aux = \<lparr>parent = [0, 0, 2, 3], size_uf = [2, 1, 1, 1]\<rparr>,
       numNodos = 2, current_p = Fin 1, nodoActivo = [True, True],
       superTop = 2, superBottom = 3, p_c = None\<rparr>) \<and>
   generate_single_percolation (SitePercolation_init 2) [(0, 1)] [Fin 0, Fin 0] (Fin 1) 1 =
     Some (1, 2,
       \<lparr>uf = \<lparr>parent = [0, 0], size_uf = [2, 1]\<rparr>,
        uf_aux = \<lparr>parent = [0, 0, 2, 3], size_uf = [2, 1, 1, 1]\<rparr>,
        numNodos = 2, current_p = Fin 1, nodoActivo = [True, True],
        superTop = 2, superBottom = 3, p_c = None\<rparr>, []) \<and>
   generate_single_percolation
       \<lparr>uf = \<lparr>parent = [0, 0], size_uf = [2, 1]\<rparr>,
        uf_aux = \<lparr>parent = [0, 0, 2, 3], size_uf = [2, 1, 1, 1]\<rparr>,
        numNodos = 2, current_p = Fin 1, nodoActivo = [True, True],
        superTop = 2, superBottom = 3, p_c = None\<rparr> [(0, 1)] [Fin 0, Fin 0] (Fin 0) 2 =
     Some (1, 2,
       \<lparr>uf = \<lparr>parent = [0, 0], size_uf = [2, 1]\<rparr>,
        uf_aux = \<lparr>parent = [0, 0, 2, 3], size_uf = [2, 1, 1, 1]\<rparr>,
        numNodos = 2, current_p = Fin 1, nodoActivo = [True, True],
        superTop = 2, superBottom = 3, p_c = None\<rparr>, [order_error])"
proof -
  let ?s = "\<lparr>uf = \<lparr>parent = [0, 0], size_uf = [2, 1]\<rparr>,
       uf_aux = \<lparr>parent = [0, 0, 2, 3], size_uf = [2, 1, 1, 1]\<rparr>,
       numNodos = 2, current_p = Fin 1, nodoActivo = [True, True],
       superTop = 2, superBottom = 3, p_c = None\<rparr>"
  have a: "dlt (Fin 0) (current_p ?s)" by simp
  have b: "generate_single_percolation (SitePercolation_init 2) [(0, 1)] [Fin 0, Fin 0] (Fin 1) 1 =
     Some (1, 2, ?s, [])"
    by code_simp
  note t = order_violation_leaves_state[OF a, of "[(0, 1)]" "[Fin 0, Fin 0]" 2
      "SitePercolation_init 2" "[(0, 1)]" "[Fin 0, Fin 0]" "Fin 1" 1 1 2 "[]"]
  have c: "generate_single_percolation ?s [(0, 1)] [Fin 0, Fin 0] (Fin 0) 2 =
     Some (1, 2, ?s, [order_error])"
    by (rule mp[OF conjunct1[OF conjunct2[OF t]] b])
  from a b c show ?thesis by (intro conjI)
qed

text \<open>
  C4. The component count never grows from one call of the incremental step to the next:
  of two consecutive calls that return, the second returns a count that is at most the
  first's. (The thresholds play no part in the proof; the claim's \<open>p1 \<le> p2\<close> is kept as
  it is stated.)
\<close>

theorem component_count_non_increasing:
  assumes "generate_single_percolation s aristas1 configuracion1 p1 Smax1 = Some (n1, Smax1', s1, errs1)"
    and "generate_single_percolation s1 aristas2 configuracion2 p2 Smax2 = Some (n2, Smax2', s2, errs2)"
    and "dle p1 p2"
  shows "n2 \<le> n1"
proof -
  from generate_single_percolation_count[OF assms(1)] generate_single_percolation_later[OF assms(1)]
  have c1: "Ncc (uf s1) (numNodos s) = Some n1" by simp
  from generate_single_percolation_count[OF assms(2)] generate_single_percolation_later[OF assms(2)]
    generate_single_percolation_later[OF assms(1)]
  have c2: "Ncc (uf s2) (numNodos s) = Some n2" and l: "later (uf s1) (uf s2)" by simp_all
  from later_Ncc[OF l c1] c2 show ?thesis by simp
qed

theorem component_count_non_increasing_witness:
  "generate_single_percolation (SitePercolation_init 2) [(0, 1)] [Fin 0, Fin 1] (Fin 0) 1 =
     Some (2, 1,
       \<lparr>uf = \<lparr>parent = [0, 1], size_uf = [1, 1]\<rparr>,
        uf_aux = \<lparr>parent = [0, 1, 2, 3], size_uf = [1, 1, 1, 1]\<rparr>,
        numNodos = 2, current_p = Fin 0, nodoActivo = [True, False],
        superTop = 2, superBottom = 3, p_c = None\<rparr>, []) \<and>
   generate_single_percolation
       \<lparr>uf = \<lparr>parent = [0, 1], size_uf = [1, 1]\<rparr>,
        uf_aux = \<lparr>parent = [0, 1, 2, 3], size_uf = [1, 1, 1, 1]\<rparr>,
        numNodos = 2, current_p = Fin 0, nodoActivo = [True, False],
        superTop = 2, superBottom = 3, p_c = None\<rparr> [(0, 1)] [Fin 0, Fin 1] (Fin 1) 1 =
     Some (1, 2,
       \<lparr>uf = \<lparr>parent = [0, 0], size_uf = [2, 1]\<rparr>,
        uf_aux = \<lparr>parent = [0, 0, 2, 3], size_uf = [2, 1, 1, 1]\<rparr>,
        numNodos = 2, current_p = Fin 1, nodoActivo = [True, True],
        superTop = 2, superBottom = 3, p_c = None\<rparr>, []) \<and>
   dle (Fin 0) (Fin 1) \<and> (1 :: nat) \<le> 2"
proof -
  let ?s1 = "\<lparr>uf = \<lparr>parent = [0, 1], size_uf = [1, 1]\<rparr>,
        uf_aux = \<lparr>parent = [0, 1, 2, 3], size_uf = [1, 1, 1, 1]\<rparr>,
        numNodos = 2, current_p = Fin 0, nodoActivo = [True, False],
        superTop = 2, superBottom = 3, p_c = None\<rparr>"
  let ?s2 = "\<lparr>uf = \<lparr>parent = [0, 0], size_uf = [2, 1]\<rparr>,
        uf_aux = \<lparr>parent = [0, 0, 2, 3], size_uf = [2, 1, 1, 1]\<rparr>,
        numNodos = 2, current_p = Fin 1, nodoActivo = [True, True],
        superTop = 2, superBottom = 3, p_c = None\<rparr>"
  have a: "generate_single_percolation (SitePercolation_init 2) [(0, 1)] [Fin 0, Fin 1] (Fin 0) 1 =
     Some (2, 1, ?s1, [])"
    by code_simp
  have b: "generate_single_percolation ?s1 [(0, 1)] [Fin 0, Fin 1] (Fin 1) 1 = Some (1, 2, ?s2, [])"
    by code_simp
  have c: "dle (Fin 0) (Fin 1)" by simp
  from component_count_non_increasing[OF a b c] a b c show ?thesis by (intro conjI)
qed

text \<open>
  C5. A call of the incremental step that is not rejected leaves node \<open>i\<close> active exactly
  when it was active before or its weight is \<open>\<le> p\<close>: an inactive node with weight
  \<open>\<le> p\<close> (also with weight equal to \<open>p\<close>) becomes active, an inactive node with weight
  \<open>> p\<close> stays inactive, an active node stays active.
\<close>

theorem activation_inclusive:
  assumes "generate_single_percolation s aristas configuracion p Smax = Some (n, Smax', s', errs)"
    and "\<not> dlt p (current_p s)" and "i < numNodos s"
  shows "nodoActivo s' ! i = (nodoActivo s ! i \<or> dle (configuracion ! i) p) \<and>
         (\<not> nodoActivo s ! i \<and> dle (configuracion ! i) p \<longrightarrow> nodoActivo s' ! i) \<and>
         (\<not> nodoActivo s ! i \<and> dlt p (configuracion ! i) \<longrightarrow> \<not> nodoActivo s' ! i) \<and>
         (nodoActivo s ! i \<longrightarrow> nodoActivo s' ! i) \<and>
         length (nodoActivo s') = length (nodoActivo s)"
  using assms(1)
proof (cases rule: generate_single_percolation_Some)
  case rejected
  with assms(2) show ?thesis by simp
next
  case (advanced act f a)
  from activate_char[OF advanced(2)] assms(3)
  have "length act = length (nodoActivo s)" "i < length (nodoActivo s)"
    "act ! i = (nodoActivo s ! i \<or> dle (configuracion ! i) p)"
    by auto
  with advanced(5) dlt_not_dle[of p "configuracion ! i"] show ?thesis by auto
qed

theorem activation_inclusive_witness:
  "generate_single_percolation (SitePercolation_init 2) [(0, 1)] [Fin 0, Fin 1] (Fin 0) 1 =
     Some (2, 1,
       \<lparr>uf = \<lparr>parent = [0, 1], size_uf = [1, 1]\<rparr>,
        uf_aux = \<lparr>parent = [0, 1, 2, 3], size_uf = [1, 1, 1, 1]\<rparr>,
        numNodos = 2, current_p = Fin 0, nodoActivo = [True, False],
        superTop = 2, superBottom = 3, p_c = None\<rparr>, []) \<and>
   \<not> dlt (Fin 0) (current_p (SitePercolation_init 2)) \<and>
   (0 :: nat) < numNodos (SitePercolation_init 2) \<and> (1 :: nat) < numNodos (SitePercolation_init 2) \<and>
   \<not> nodoActivo (SitePercolation_init 2) ! 0 \<and> dle ([Fin 0, Fin 1] ! 0) (Fin 0) \<and>
   [True, False] ! 0 \<and>
   \<not> nodoActivo (SitePercolation_init 2) ! 1 \<and> dlt (Fin 0) ([Fin 0, Fin 1] ! 1) \<and>
   \<not> [True, False] ! 1"
proof -
  let ?s1 = "\<lparr>uf = \<lparr>parent = [0, 1], size_uf = [1, 1]\<rparr>,
        uf_aux = \<lparr>parent = [0, 1, 2, 3], size_uf = [1, 1, 1, 1]\<rparr>,
        numNodos = 2, current_p = Fin 0, nodoActivo = [True, False],
        superTop = 2, superBottom = 3, p_c = None\<rparr>"
  have a: "generate_single_percolation (SitePercolation_init 2) [(0, 1)] [Fin 0, Fin 1] (Fin 0) 1 =
     Some (2, 1, ?s1, [])"
    by code_simp
  have b: "\<not> dlt (Fin 0) (current_p (SitePercolation_init 2))"
    by (simp add: SitePercolation_init_def)
  have c: "(0 :: nat) < numNodos (SitePercolation_init 2)" "(1 :: nat) < numNodos (SitePercolation_init 2)"
    by (simp_all add: SitePercolation_init_def)
  from activation_inclusive[OF a b c(1)] activation_inclusive[OF a b c(2)] a b c
  show ?thesis by (simp add: SitePercolation_init_def)
qed

text \<open>
  C6. On a well-formed engine (the constructor's is one) \<^verbatim>\<open>initialize_supernodes\<close>
  returns, whatever \<open>N\<close> is, square or not; \<open>grid_size N\<close> is \<open>\<lfloor>\<surd>N\<rfloor>\<close>; only the boundary
  structure changes, and it keeps its \<open>N + 2\<close> elements. What it unites is exactly the
  wiring: afterwards two elements share a representative if and only if this follows, by
  symmetry and transitivity, from the pairs that shared one before and the pairs \<open>(N, i)\<close>
  and \<open>(N + 1, N - side + i)\<close> with \<open>i < side\<close>. On a structure that joins nothing yet, as
  the constructor leaves it, and for \<open>N \<ge> 2\<close>, that is: the top terminal \<open>N\<close> and the nodes
  \<open>0 \<dots> side - 1\<close> form one class, the bottom terminal \<open>N + 1\<close> and the nodes
  \<open>N - side \<dots> N - 1\<close> another, every other element is alone, and the two terminals are
  apart. The full sweep is the loop run on the engine so initialised, and the loop does
  no wiring of its own: after any number of its passes, and when the sweep returns, the
  boundary structure joins exactly what the initialisation left joined and some edges of
  the edge list between nodes below \<open>N\<close>.
\<close>

theorem initialize_supernodes_wires_rows:
  assumes "engine_wf s"
  shows "int (grid_size (numNodos s)) = \<lfloor>sqrt (real (numNodos s))\<rfloor> \<and>
    (\<exists>a. initialize_supernodes s = Some (s\<lparr>uf_aux := a\<rparr>) \<and>
         length (parent a) = numNodos s + 2 \<and>
         same_set a =
           (same_set (uf_aux s) \<union> wiring (numNodos s) \<union> (wiring (numNodos s))\<inverse>)\<^sup>+ \<and>
         (2 \<le> numNodos s \<and> same_set (uf_aux s) = Id_on {..<numNodos s + 2} \<longrightarrow>
            \<not> percolates (s\<lparr>uf_aux := a\<rparr>) \<and>
            (\<forall>x y. (root_of (parent a) x \<noteq> None \<and> root_of (parent a) x = root_of (parent a) y) =
               (x < numNodos s + 2 \<and> y < numNodos s + 2 \<and>
                (x = y \<or>
                 x \<in> insert (numNodos s) {0..<grid_size (numNodos s)} \<and>
                 y \<in> insert (numNodos s) {0..<grid_size (numNodos s)} \<or>
                 x \<in> insert (numNodos s + 1) {numNodos s - grid_size (numNodos s)..<numNodos s} \<and>
                 y \<in> insert (numNodos s + 1) {numNodos s - grid_size (numNodos s)..<numNodos s})))) \<and>
         generate_full_percolation s aristas configuracion step visualization =
           sweep_loop aristas configuracion step visualization (sweep_start (s\<lparr>uf_aux := a\<rparr>)) \<and>
         (\<forall>k st. sweep_iter k aristas configuracion step visualization
                    (sweep_start (s\<lparr>uf_aux := a\<rparr>)) = Some st \<longrightarrow>
            (\<exists>E. E \<subseteq> set aristas \<and> E \<subseteq> {..<numNodos s} \<times> {..<numNodos s} \<and>
                 same_set (uf_aux (engine st)) = (same_set a \<union> E \<union> E\<inverse>)\<^sup>+)) \<and>
         (\<forall>fin. generate_full_percolation s aristas configuracion step visualization = Some fin \<longrightarrow>
            (\<exists>E. E \<subseteq> set aristas \<and> E \<subseteq> {..<numNodos s} \<times> {..<numNodos s} \<and>
                 same_set (uf_aux (engine fin)) = (same_set a \<union> E \<union> E\<inverse>)\<^sup>+)))"
proof -
  let ?N = "numNodos s"
  from initialize_supernodes_correct[OF assms] obtain a where
    a: "initialize_supernodes s = Some (s\<lparr>uf_aux := a\<rparr>)" "later (uf_aux s) a"
    by blast
  have tb: "superTop s = ?N" "superBottom s = ?N + 1" "length (nodoActivo s) = ?N"
    using assms by (simp_all add: engine_wf_def)
  have l: "length (parent a) = ?N + 2"
    using later_len[OF a(2)] assms by (simp add: engine_wf_def)
  have c: "same_set a = (same_set (uf_aux s) \<union> wiring ?N \<union> (wiring ?N)\<inverse>)\<^sup>+"
    using initialize_supernodes_same_set[OF a(1) tb(1,2)] by simp
  have d: "\<not> percolates (s\<lparr>uf_aux := a\<rparr>) \<and>
            (\<forall>x y. (root_of (parent a) x \<noteq> None \<and> root_of (parent a) x = root_of (parent a) y) =
               (x < ?N + 2 \<and> y < ?N + 2 \<and>
                (x = y \<or>
                 x \<in> insert ?N {0..<grid_size ?N} \<and> y \<in> insert ?N {0..<grid_size ?N} \<or>
                 x \<in> insert (?N + 1) {?N - grid_size ?N..<?N} \<and>
                 y \<in> insert (?N + 1) {?N - grid_size ?N..<?N})))"
    if h: "2 \<le> ?N \<and> same_set (uf_aux s) = Id_on {..<?N + 2}"
  proof
    from h c wiring_closure[of ?N] have w: "same_set a = wired ?N" by simp
    have "(?N, ?N + 1) \<notin> same_set a" using wired_separate[of ?N] h w by simp
    then show "\<not> percolates (s\<lparr>uf_aux := a\<rparr>)"
      unfolding percolates_view same_set_iff using tb by simp
    have "((x, y) \<in> same_set a) = ((x, y) \<in> wired ?N)" for x y using w by simp
    then show "\<forall>x y. (root_of (parent a) x \<noteq> None \<and> root_of (parent a) x = root_of (parent a) y) =
               (x < ?N + 2 \<and> y < ?N + 2 \<and>
                (x = y \<or>
                 x \<in> insert ?N {0..<grid_size ?N} \<and> y \<in> insert ?N {0..<grid_size ?N} \<or>
                 x \<in> insert (?N + 1) {?N - grid_size ?N..<?N} \<and>
                 y \<in> insert (?N + 1) {?N - grid_size ?N..<?N}))"
      unfolding same_set_def wired_def by (simp only: mem_Collect_eq prod.case) blast
  qed
  have g: "generate_full_percolation s aristas configuracion step visualization =
           sweep_loop aristas configuracion step visualization (sweep_start (s\<lparr>uf_aux := a\<rparr>))"
    by (simp add: generate_full_percolation_def a(1))
  have n0: "length (nodoActivo (engine (sweep_start (s\<lparr>uf_aux := a\<rparr>)))) = ?N"
    "uf_aux (engine (sweep_start (s\<lparr>uf_aux := a\<rparr>))) = a"
    using tb by (simp_all add: sweep_start_def)
  have i: "\<exists>E. E \<subseteq> set aristas \<and> E \<subseteq> {..<?N} \<times> {..<?N} \<and>
                 same_set (uf_aux (engine st)) = (same_set a \<union> E \<union> E\<inverse>)\<^sup>+"
    if "sweep_iter k aristas configuracion step visualization
          (sweep_start (s\<lparr>uf_aux := a\<rparr>)) = Some st" for k st
  proof -
    from sweep_iter_joined_by[OF that] n0
    have "joined_by (set aristas \<inter> {..<?N} \<times> {..<?N}) a (uf_aux (engine st))" by simp
    then show ?thesis unfolding joined_by_def by blast
  qed
  have f: "\<exists>E. E \<subseteq> set aristas \<and> E \<subseteq> {..<?N} \<times> {..<?N} \<and>
                 same_set (uf_aux (engine fin)) = (same_set a \<union> E \<union> E\<inverse>)\<^sup>+"
    if "generate_full_percolation s aristas configuracion step visualization = Some fin" for fin
  proof -
    from that g have "sweep_loop aristas configuracion step visualization
                        (sweep_start (s\<lparr>uf_aux := a\<rparr>)) = Some fin" by simp
    from sweep_loop_joined_by[OF this] n0
    have "joined_by (set aristas \<inter> {..<?N} \<times> {..<?N}) a (uf_aux (engine fin))" by simp
    then show ?thesis unfolding joined_by_def by blast
  qed
  have d': "2 \<le> ?N \<and> same_set (uf_aux s) = Id_on {..<?N + 2} \<longrightarrow>
            \<not> percolates (s\<lparr>uf_aux := a\<rparr>) \<and>
            (\<forall>x y. (root_of (parent a) x \<noteq> None \<and> root_of (parent a) x = root_of (parent a) y) =
               (x < ?N + 2 \<and> y < ?N + 2 \<and>
                (x = y \<or>
                 x \<in> insert ?N {0..<grid_size ?N} \<and> y \<in> insert ?N {0..<grid_size ?N} \<or>
                 x \<in> insert (?N + 1) {?N - grid_size ?N..<?N} \<and>
                 y \<in> insert (?N + 1) {?N - grid_size ?N..<?N})))"
    by (rule impI) (rule d)
  have i': "\<forall>k st. sweep_iter k aristas configuracion step visualization
                    (sweep_start (s\<lparr>uf_aux := a\<rparr>)) = Some st \<longrightarrow>
            (\<exists>E. E \<subseteq> set aristas \<and> E \<subseteq> {..<?N} \<times> {..<?N} \<and>
                 same_set (uf_aux (engine st)) = (same_set a \<union> E \<union> E\<inverse>)\<^sup>+)"
    by (intro allI impI) (rule i)
  have f': "\<forall>fin. generate_full_percolation s aristas configuracion step visualization = Some fin \<longrightarrow>
            (\<exists>E. E \<subseteq> set aristas \<and> E \<subseteq> {..<?N} \<times> {..<?N} \<and>
                 same_set (uf_aux (engine fin)) = (same_set a \<union> E \<union> E\<inverse>)\<^sup>+)"
    by (intro allI impI) (rule f)
  show ?thesis
    apply (rule conjI)
     apply (rule grid_size_floor_sqrt)
    apply (rule exI[of _ a])
    apply (intro conjI)
          apply (rule a(1))
         apply (rule l)
        apply (rule c)
       apply (rule d')
      apply (rule g)
     apply (rule i')
    apply (rule f')
    done
qed

theorem initialize_supernodes_wires_rows_witness:
  "engine_wf (SitePercolation_init 4) \<and>
   2 \<le> numNodos (SitePercolation_init 4) \<and>
   same_set (uf_aux (SitePercolation_init 4)) = Id_on {..<numNodos (SitePercolation_init 4) + 2} \<and>
   int (grid_size (numNodos (SitePercolation_init 4))) =
     \<lfloor>sqrt (real (numNodos (SitePercolation_init 4)))\<rfloor> \<and>
   grid_size (numNodos (SitePercolation_init 4)) = 2 \<and>
   initialize_supernodes (SitePercolation_init 4) =
     Some ((SitePercolation_init 4)\<lparr>uf_aux := \<lparr>parent = [4, 4, 5, 5, 4, 5], size_uf = [1, 1, 1, 1, 3, 3]\<rparr>\<rparr>) \<and>
   \<not> percolates ((SitePercolation_init 4)\<lparr>uf_aux := \<lparr>parent = [4, 4, 5, 5, 4, 5], size_uf = [1, 1, 1, 1, 3, 3]\<rparr>\<rparr>) \<and>
   (\<forall>x y. (root_of [4, 4, 5, 5, 4, 5] x \<noteq> None \<and>
           root_of [4, 4, 5, 5, 4, 5] x = root_of [4, 4, 5, 5, 4, 5] y) =
          (x < 6 \<and> y < 6 \<and>
           (x = y \<or> x \<in> {4, 0, 1} \<and> y \<in> {4, 0, 1} \<or> x \<in> {5, 2, 3} \<and> y \<in> {5, 2, 3}))) \<and>
   generate_full_percolation (SitePercolation_init 4) [(0, 2)] (replicate 4 (Fin (1 / 2))) (Fin 1) False =
     Some \<lparr>engine =
       \<lparr>uf = \<lparr>parent = [0, 1, 0, 3], size_uf = [2, 1, 1, 1]\<rparr>,
        uf_aux = \<lparr>parent = [4, 4, 5, 5, 4, 4], size_uf = [1, 1, 1, 1, 6, 3]\<rparr>,
        numNodos = 4, current_p = Fin 1, nodoActivo = [True, True, True, True],
        superTop = 4, superBottom = 5, p_c = Some (Fin 1)\<rparr>,
      p_var = Fin 2, Smax_var = 2, percolation = True,
      resultados = [(Fin 0, 4, 1, Fin (1 / 4)), (Fin 1, 3, 2, Fin (1 / 2))],
      percolation_report = [], cluster_of_each_node = [], cout = [Fin 1], cerr = []\<rparr> \<and>
   (\<exists>E. E \<subseteq> set [(0, 2)] \<and> E \<subseteq> {..<4} \<times> {..<4} \<and>
        same_set \<lparr>parent = [4, 4, 5, 5, 4, 4], size_uf = [1, 1, 1, 1, 6, 3]\<rparr> =
          (same_set \<lparr>parent = [4, 4, 5, 5, 4, 5], size_uf = [1, 1, 1, 1, 3, 3]\<rparr> \<union> E \<union> E\<inverse>)\<^sup>+)"
proof -
  let ?s0 = "SitePercolation_init 4"
  let ?a1 = "\<lparr>parent = [4, 4, 5, 5, 4, 5], size_uf = [1, 1, 1, 1, 3, 3]\<rparr>"
  let ?st2 = "\<lparr>engine =
       \<lparr>uf = \<lparr>parent = [0, 1, 0, 3], size_uf = [2, 1, 1, 1]\<rparr>,
        uf_aux = \<lparr>parent = [4, 4, 5, 5, 4, 4], size_uf = [1, 1, 1, 1, 6, 3]\<rparr>,
        numNodos = 4, current_p = Fin 1, nodoActivo = [True, True, True, True],
        superTop = 4, superBottom = 5, p_c = Some (Fin 1)\<rparr>,
      p_var = Fin 2, Smax_var = 2, percolation = True,
      resultados = [(Fin 0, 4, 1, Fin (1 / 4)), (Fin 1, 3, 2, Fin (1 / 2))],
      percolation_report = [], cluster_of_each_node = [], cout = [Fin 1], cerr = []\<rparr>"
  have w: "engine_wf ?s0" by (rule SitePercolation_init_wf)
  have n: "numNodos ?s0 = 4" by (simp add: SitePercolation_init_def)
  have h1: "2 \<le> numNodos ?s0" by (simp add: n)
  have h2: "same_set (uf_aux ?s0) = Id_on {..<numNodos ?s0 + 2}"
    by (simp add: SitePercolation_init_def UnionFind_init_same_set)
  have gs: "grid_size (numNodos ?s0) = 2" by code_simp
  have i: "initialize_supernodes ?s0 = Some (?s0\<lparr>uf_aux := ?a1\<rparr>)" by code_simp
  have g: "generate_full_percolation ?s0 [(0, 2)] (replicate 4 (Fin (1 / 2))) (Fin 1) False = Some ?st2"
    by code_simp
  note t = initialize_supernodes_wires_rows[OF w, of "[(0, 2)]" "replicate 4 (Fin (1 / 2))" "Fin 1" False]
  from conjunct2[OF t] obtain a where
    a: "initialize_supernodes ?s0 = Some (?s0\<lparr>uf_aux := a\<rparr>)"
    and r: "length (parent a) = numNodos ?s0 + 2 \<and>
         same_set a =
           (same_set (uf_aux ?s0) \<union> wiring (numNodos ?s0) \<union> (wiring (numNodos ?s0))\<inverse>)\<^sup>+ \<and>
         (2 \<le> numNodos ?s0 \<and> same_set (uf_aux ?s0) = Id_on {..<numNodos ?s0 + 2} \<longrightarrow>
            \<not> percolates (?s0\<lparr>uf_aux := a\<rparr>) \<and>
            (\<forall>x y. (root_of (parent a) x \<noteq> None \<and> root_of (parent a) x = root_of (parent a) y) =
               (x < numNodos ?s0 + 2 \<and> y < numNodos ?s0 + 2 \<and>
                (x = y \<or>
                 x \<in> insert (numNodos ?s0) {0..<grid_size (numNodos ?s0)} \<and>
                 y \<in> insert (numNodos ?s0) {0..<grid_size (numNodos ?s0)} \<or>
                 x \<in> insert (numNodos ?s0 + 1) {numNodos ?s0 - grid_size (numNodos ?s0)..<numNodos ?s0} \<and>
                 y \<in> insert (numNodos ?s0 + 1) {numNodos ?s0 - grid_size (numNodos ?s0)..<numNodos ?s0})))) \<and>
         generate_full_percolation ?s0 [(0, 2)] (replicate 4 (Fin (1 / 2))) (Fin 1) False =
           sweep_loop [(0, 2)] (replicate 4 (Fin (1 / 2))) (Fin 1) False (sweep_start (?s0\<lparr>uf_aux := a\<rparr>)) \<and>
         (\<forall>k st. sweep_iter k [(0, 2)] (replicate 4 (Fin (1 / 2))) (Fin 1) False
                    (sweep_start (?s0\<lparr>uf_aux := a\<rparr>)) = Some st \<longrightarrow>
            (\<exists>E. E \<subseteq> set [(0, 2)] \<and> E \<subseteq> {..<numNodos ?s0} \<times> {..<numNodos ?s0} \<and>
                 same_set (uf_aux (engine st)) = (same_set a \<union> E \<union> E\<inverse>)\<^sup>+)) \<and>
         (\<forall>fin. generate_full_percolation ?s0 [(0, 2)] (replicate 4 (Fin (1 / 2))) (Fin 1) False = Some fin \<longrightarrow>
            (\<exists>E. E \<subseteq> set [(0, 2)] \<and> E \<subseteq> {..<numNodos ?s0} \<times> {..<numNodos ?s0} \<and>
                 same_set (uf_aux (engine fin)) = (same_set a \<union> E \<union> E\<inverse>)\<^sup>+))"
    by (elim exE conjE) (rule that, assumption, intro conjI, assumption+)
  from a i have "uf_aux (?s0\<lparr>uf_aux := a\<rparr>) = uf_aux (?s0\<lparr>uf_aux := ?a1\<rparr>)" by (simp only: option.inject)
  then have e: "a = ?a1" by simp
  note r1 = r[unfolded e]
  from mp[OF conjunct1[OF conjunct2[OF conjunct2[OF r1]]] conjI[OF h1 h2]]
  have np: "\<not> percolates (?s0\<lparr>uf_aux := ?a1\<rparr>)"
    and pt: "\<forall>x y. (root_of (parent ?a1) x \<noteq> None \<and> root_of (parent ?a1) x = root_of (parent ?a1) y) =
               (x < numNodos ?s0 + 2 \<and> y < numNodos ?s0 + 2 \<and>
                (x = y \<or>
                 x \<in> insert (numNodos ?s0) {0..<grid_size (numNodos ?s0)} \<and>
                 y \<in> insert (numNodos ?s0) {0..<grid_size (numNodos ?s0)} \<or>
                 x \<in> insert (numNodos ?s0 + 1) {numNodos ?s0 - grid_size (numNodos ?s0)..<numNodos ?s0} \<and>
                 y \<in> insert (numNodos ?s0 + 1) {numNodos ?s0 - grid_size (numNodos ?s0)..<numNodos ?s0}))"
    by (rule conjunct1, rule conjunct2)
  have gs4: "grid_size 4 = 2" using gs unfolding n .
  have s1: "{0..<2::nat} = {0, 1}" "{2..<4::nat} = {2, 3}" by auto
  from pt have pt': "\<forall>x y. (root_of [4, 4, 5, 5, 4, 5] x \<noteq> None \<and>
           root_of [4, 4, 5, 5, 4, 5] x = root_of [4, 4, 5, 5, 4, 5] y) =
          (x < 6 \<and> y < 6 \<and>
           (x = y \<or> x \<in> {4, 0, 1} \<and> y \<in> {4, 0, 1} \<or> x \<in> {5, 2, 3} \<and> y \<in> {5, 2, 3}))"
    unfolding n gs4 by (simp add: s1 del: not_None_eq)
  from mp[OF spec[OF conjunct2[OF conjunct2[OF conjunct2[OF conjunct2[OF conjunct2[OF r1]]]]]] g]
  have "\<exists>E. E \<subseteq> set [(0, 2)] \<and> E \<subseteq> {..<numNodos ?s0} \<times> {..<numNodos ?s0} \<and>
                 same_set (uf_aux (engine ?st2)) = (same_set ?a1 \<union> E \<union> E\<inverse>)\<^sup>+" .
  then have f: "\<exists>E. E \<subseteq> set [(0, 2)] \<and> E \<subseteq> {..<4} \<times> {..<4} \<and>
        same_set \<lparr>parent = [4, 4, 5, 5, 4, 4], size_uf = [1, 1, 1, 1, 6, 3]\<rparr> =
          (same_set ?a1 \<union> E \<union> E\<inverse>)\<^sup>+"
    unfolding n by simp
  from w h1 h2 conjunct1[OF t] gs i np pt' g f show ?thesis by (intro conjI)
qed

text \<open>
  C10. After a call of the incremental step that was not rejected, \<open>current_p\<close> is the
  \<open>p\<close> of that call, and the same call again (same edges, same weights, \<open>p = current_p\<close>,
  the \<open>Smax\<close> that came back) is accepted: it writes nothing to \<^verbatim>\<open>cerr\<close>, returns the same
  count and the same \<open>Smax\<close>, and leaves the activation vector, \<open>current_p\<close>, the sizes and
  every representative of both structures as they were. Only parent pointers may move,
  by path compression.
\<close>

theorem repeated_call_idempotent:
  assumes "generate_single_percolation s aristas configuracion p Smax = Some (n, Smax', s', errs)"
    and "\<not> dlt p (current_p s)"
  shows "current_p s' = p \<and>
    (\<exists>f a. generate_single_percolation s' aristas configuracion (current_p s') Smax' =
              Some (n, Smax', s'\<lparr>uf := f, uf_aux := a\<rparr>, []) \<and>
            roots f = roots (uf s') \<and> size_uf f = size_uf (uf s') \<and>
            roots a = roots (uf_aux s') \<and> size_uf a = size_uf (uf_aux s'))"
  using assms(1)
proof (cases rule: generate_single_percolation_Some)
  case rejected
  with assms(2) show ?thesis by simp
next
  case (advanced act f0 a0)
  have act: "activate configuracion p [0..<numNodos s] act = Some act"
    using advanced(2) by (rule activate_idem)
  from connect_edges_settles[OF advanced(3), of "{}"]
  have "\<forall>e\<in>set aristas. settled act f0 a0 Smax' e" by simp
  from connect_edges_settled_again[OF this] obtain f a where
    c: "connect_edges aristas act f0 a0 Smax' = Some (f, a, Smax')"
    and v: "view f = view f0" "view a = view a0"
    and l: "length (parent f) = length (parent f0)" "length (parent a) = length (parent a0)"
    by blast
  have n: "Ncc f (numNodos s) = Some n"
    using Ncc_cong[OF v(1) l(1)] advanced(4) by simp
  have "generate_single_percolation s' aristas configuracion p Smax' =
          Some (n, Smax', s'\<lparr>uf := f, uf_aux := a\<rparr>, [])"
    using act c n advanced(5) dlt_irrefl[of p]
    by (simp add: generate_single_percolation_def)
  with view_roots[OF v(1) l(1)] view_roots[OF v(2) l(2)] advanced(5)
  show ?thesis by auto
qed


theorem repeated_call_idempotent_witness:
  "generate_single_percolation (SitePercolation_init 2) [(0, 1)] [Fin 0, Fin 1] (Fin 1) 1 =
     Some (1, 2,
       \<lparr>uf = \<lparr>parent = [0, 0], size_uf = [2, 1]\<rparr>,
        uf_aux = \<lparr>parent = [0, 0, 2, 3], size_uf = [2, 1, 1, 1]\<rparr>,
        numNodos = 2, current_p = Fin 1, nodoActivo = [True, True],
        superTop = 2, superBottom = 3, p_c = None\<rparr>, []) \<and>
   \<not> dlt (Fin 1) (current_p (SitePercolation_init 2)) \<and>
   current_p
       \<lparr>uf = \<lparr>parent = [0, 0], size_uf = [2, 1]\<rparr>,
        uf_aux = \<lparr>parent = [0, 0, 2, 3], size_uf = [2, 1, 1, 1]\<rparr>,
        numNodos = 2, current_p = Fin 1, nodoActivo = [True, True],
        superTop = 2, superBottom = 3, p_c = None\<rparr> = Fin 1 \<and>
   generate_single_percolation
       \<lparr>uf = \<lparr>parent = [0, 0], size_uf = [2, 1]\<rparr>,
        uf_aux = \<lparr>parent = [0, 0, 2, 3], size_uf = [2, 1, 1, 1]\<rparr>,
        numNodos = 2, current_p = Fin 1, nodoActivo = [True, True],
        superTop = 2, superBottom = 3, p_c = None\<rparr> [(0, 1)] [Fin 0, Fin 1] (Fin 1) 2 =
     Some (1, 2,
       \<lparr>uf = \<lparr>parent = [0, 0], size_uf = [2, 1]\<rparr>,
        uf_aux = \<lparr>parent = [0, 0, 2, 3], size_uf = [2, 1, 1, 1]\<rparr>,
        numNodos = 2, current_p = Fin 1, nodoActivo = [True, True],
        superTop = 2, superBottom = 3, p_c = None\<rparr>, [])"
proof -
  let ?s = "\<lparr>uf = \<lparr>parent = [0, 0], size_uf = [2, 1]\<rparr>,
        uf_aux = \<lparr>parent = [0, 0, 2, 3], size_uf = [2, 1, 1, 1]\<rparr>,
        numNodos = 2, current_p = Fin 1, nodoActivo = [True, True],
        superTop = 2, superBottom = 3, p_c = None\<rparr>"
  have a: "generate_single_percolation (SitePercolation_init 2) [(0, 1)] [Fin 0, Fin 1] (Fin 1) 1 =
     Some (1, 2, ?s, [])"
    by code_simp
  have b: "\<not> dlt (Fin 1) (current_p (SitePercolation_init 2))"
    by (simp add: SitePercolation_init_def)
  have c: "generate_single_percolation ?s [(0, 1)] [Fin 0, Fin 1] (Fin 1) 2 = Some (1, 2, ?s, [])"
    by code_simp
  from conjunct1[OF repeated_call_idempotent[OF a b]] a b c show ?thesis by (intro conjI)
qed

text \<open>
  C7 (as amended). \<^verbatim>\<open>has_percolation\<close> returns whether the two terminals have the same
  representative in the boundary structure. It is not a pure query: the two \<^verbatim>\<open>find\<close>
  calls compress paths, so the parent vector of the boundary structure may change. What
  it leaves alone is everything else in the engine, the size vector, and the
  representative of every element.
\<close>

theorem has_percolation_keeps_representatives:
  assumes "engine_wf s"
  shows "\<exists>a. has_percolation s =
           Some (root_of (parent (uf_aux s)) (superTop s) = root_of (parent (uf_aux s)) (superBottom s),
                 s\<lparr>uf_aux := a\<rparr>) \<and>
         roots a = roots (uf_aux s) \<and> size_uf a = size_uf (uf_aux s)"
proof -
  from has_percolation_total[OF engine_wf_terminals[OF assms]]
  obtain b s' where h: "has_percolation s = Some (b, s')" by blast
  then show ?thesis
  proof (cases rule: has_percolation_Some)
    case (1 a)
    from view_roots[OF 1(2,3)] 1(1,6) h show ?thesis
      by (intro exI[of _ a]) (simp add: view_def)
  qed
qed

text \<open>
  The claim as stated fails. Fifteen nodes, all weights 0, one incremental step at
  \<open>p = 0\<close> over ten edges after the boundary wiring: the top terminal 15 hangs under 3,
  which hangs under the root 16. The query answers \<open>True\<close> and leaves 15 pointing at 16.
  (The edges are chosen so that the terminal ends two links below its root whichever way
  a tie between equal sizes is broken.)
\<close>

theorem has_percolation_rewrites_parent:
  "initialize_supernodes (SitePercolation_init 15) =
     Some \<lparr>uf = \<lparr>parent = [0, 1, 2, 3, 4, 5, 6, 7, 8, 9, 10, 11, 12, 13, 14], size_uf = [1, 1, 1, 1, 1, 1, 1, 1, 1, 1, 1, 1, 1, 1, 1]\<rparr>,
      uf_aux = \<lparr>parent = [15, 15, 15, 3, 4, 5, 6, 7, 8, 9, 10, 11, 16, 16, 16, 15, 16],
                size_uf = [1, 1, 1, 1, 1, 1, 1, 1, 1, 1, 1, 1, 1, 1, 1, 4, 4]\<rparr>,
      numNodos = 15, current_p = Fin 0, nodoActivo = replicate 15 False,
      superTop = 15, superBottom = 16, p_c = None\<rparr> \<and>
   generate_single_percolation
     \<lparr>uf = \<lparr>parent = [0, 1, 2, 3, 4, 5, 6, 7, 8, 9, 10, 11, 12, 13, 14], size_uf = [1, 1, 1, 1, 1, 1, 1, 1, 1, 1, 1, 1, 1, 1, 1]\<rparr>,
      uf_aux = \<lparr>parent = [15, 15, 15, 3, 4, 5, 6, 7, 8, 9, 10, 11, 16, 16, 16, 15, 16],
                size_uf = [1, 1, 1, 1, 1, 1, 1, 1, 1, 1, 1, 1, 1, 1, 1, 4, 4]\<rparr>,
      numNodos = 15, current_p = Fin 0, nodoActivo = replicate 15 False,
      superTop = 15, superBottom = 16, p_c = None\<rparr>
     [(3, 4), (3, 5), (3, 6), (3, 0), (12, 7), (12, 8), (12, 9), (12, 10), (12, 11), (12, 3)]
     (replicate 15 (Fin 0)) (Fin 0) 1 =
     Some (5, 11,
     \<lparr>uf = \<lparr>parent = [3, 1, 2, 12, 3, 3, 3, 12, 12, 12, 12, 12, 12, 13, 14], size_uf = [1, 1, 1, 5, 1, 1, 1, 1, 1, 1, 1, 1, 11, 1, 1]\<rparr>,
      uf_aux = \<lparr>parent = [15, 15, 15, 16, 3, 3, 3, 16, 16, 16, 16, 16, 16, 16, 16, 3, 16],
                size_uf = [1, 1, 1, 8, 1, 1, 1, 1, 1, 1, 1, 1, 1, 1, 1, 4, 17]\<rparr>,
      numNodos = 15, current_p = Fin 0, nodoActivo = replicate 15 True,
      superTop = 15, superBottom = 16, p_c = None\<rparr>, []) \<and>
   has_percolation
     \<lparr>uf = \<lparr>parent = [3, 1, 2, 12, 3, 3, 3, 12, 12, 12, 12, 12, 12, 13, 14], size_uf = [1, 1, 1, 5, 1, 1, 1, 1, 1, 1, 1, 1, 11, 1, 1]\<rparr>,
      uf_aux = \<lparr>parent = [15, 15, 15, 16, 3, 3, 3, 16, 16, 16, 16, 16, 16, 16, 16, 3, 16],
                size_uf = [1, 1, 1, 8, 1, 1, 1, 1, 1, 1, 1, 1, 1, 1, 1, 4, 17]\<rparr>,
      numNodos = 15, current_p = Fin 0, nodoActivo = replicate 15 True,
      superTop = 15, superBottom = 16, p_c = None\<rparr> =
     Some (True,
     \<lparr>uf = \<lparr>parent = [3, 1, 2, 12, 3, 3, 3, 12, 12, 12, 12, 12, 12, 13, 14], size_uf = [1, 1, 1, 5, 1, 1, 1, 1, 1, 1, 1, 1, 11, 1, 1]\<rparr>,
      uf_aux = \<lparr>parent = [15, 15, 15, 16, 3, 3, 3, 16, 16, 16, 16, 16, 16, 16, 16, 16, 16],
                size_uf = [1, 1, 1, 8, 1, 1, 1, 1, 1, 1, 1, 1, 1, 1, 1, 4, 17]\<rparr>,
      numNodos = 15, current_p = Fin 0, nodoActivo = replicate 15 True,
      superTop = 15, superBottom = 16, p_c = None\<rparr>) \<and>
   parent (uf_aux
     \<lparr>uf = \<lparr>parent = [3, 1, 2, 12, 3, 3, 3, 12, 12, 12, 12, 12, 12, 13, 14], size_uf = [1, 1, 1, 5, 1, 1, 1, 1, 1, 1, 1, 1, 11, 1, 1]\<rparr>,
      uf_aux = \<lparr>parent = [15, 15, 15, 16, 3, 3, 3, 16, 16, 16, 16, 16, 16, 16, 16, 3, 16],
                size_uf = [1, 1, 1, 8, 1, 1, 1, 1, 1, 1, 1, 1, 1, 1, 1, 4, 17]\<rparr>,
      numNodos = 15, current_p = Fin 0, nodoActivo = replicate 15 True,
      superTop = 15, superBottom = 16, p_c = None\<rparr>) ! 15 = 3 \<and>
   parent (uf_aux
     \<lparr>uf = \<lparr>parent = [3, 1, 2, 12, 3, 3, 3, 12, 12, 12, 12, 12, 12, 13, 14], size_uf = [1, 1, 1, 5, 1, 1, 1, 1, 1, 1, 1, 1, 11, 1, 1]\<rparr>,
      uf_aux = \<lparr>parent = [15, 15, 15, 16, 3, 3, 3, 16, 16, 16, 16, 16, 16, 16, 16, 16, 16],
                size_uf = [1, 1, 1, 8, 1, 1, 1, 1, 1, 1, 1, 1, 1, 1, 1, 4, 17]\<rparr>,
      numNodos = 15, current_p = Fin 0, nodoActivo = replicate 15 True,
      superTop = 15, superBottom = 16, p_c = None\<rparr>) ! 15 = 16 \<and>
   \<lparr>uf = \<lparr>parent = [3, 1, 2, 12, 3, 3, 3, 12, 12, 12, 12, 12, 12, 13, 14], size_uf = [1, 1, 1, 5, 1, 1, 1, 1, 1, 1, 1, 1, 11, 1, 1]\<rparr>,
      uf_aux = \<lparr>parent = [15, 15, 15, 16, 3, 3, 3, 16, 16, 16, 16, 16, 16, 16, 16, 16, 16],
                size_uf = [1, 1, 1, 8, 1, 1, 1, 1, 1, 1, 1, 1, 1, 1, 1, 4, 17]\<rparr>,
      numNodos = 15, current_p = Fin 0, nodoActivo = replicate 15 True,
      superTop = 15, superBottom = 16, p_c = None\<rparr> \<noteq>
   \<lparr>uf = \<lparr>parent = [3, 1, 2, 12, 3, 3, 3, 12, 12, 12, 12, 12, 12, 13, 14], size_uf = [1, 1, 1, 5, 1, 1, 1, 1, 1, 1, 1, 1, 11, 1, 1]\<rparr>,
      uf_aux = \<lparr>parent = [15, 15, 15, 16, 3, 3, 3, 16, 16, 16, 16, 16, 16, 16, 16, 3, 16],
                size_uf = [1, 1, 1, 8, 1, 1, 1, 1, 1, 1, 1, 1, 1, 1, 1, 4, 17]\<rparr>,
      numNodos = 15, current_p = Fin 0, nodoActivo = replicate 15 True,
      superTop = 15, superBottom = 16, p_c = None\<rparr>"
proof (intro conjI)
  show "initialize_supernodes (SitePercolation_init 15) =
     Some \<lparr>uf = \<lparr>parent = [0, 1, 2, 3, 4, 5, 6, 7, 8, 9, 10, 11, 12, 13, 14], size_uf = [1, 1, 1, 1, 1, 1, 1, 1, 1, 1, 1, 1, 1, 1, 1]\<rparr>,
      uf_aux = \<lparr>parent = [15, 15, 15, 3, 4, 5, 6, 7, 8, 9, 10, 11, 16, 16, 16, 15, 16],
                size_uf = [1, 1, 1, 1, 1, 1, 1, 1, 1, 1, 1, 1, 1, 1, 1, 4, 4]\<rparr>,
      numNodos = 15, current_p = Fin 0, nodoActivo = replicate 15 False,
      superTop = 15, superBottom = 16, p_c = None\<rparr>"
    by code_simp
  show "generate_single_percolation
     \<lparr>uf = \<lparr>parent = [0, 1, 2, 3, 4, 5, 6, 7, 8, 9, 10, 11, 12, 13, 14], size_uf = [1, 1, 1, 1, 1, 1, 1, 1, 1, 1, 1, 1, 1, 1, 1]\<rparr>,
      uf_aux = \<lparr>parent = [15, 15, 15, 3, 4, 5, 6, 7, 8, 9, 10, 11, 16, 16, 16, 15, 16],
                size_uf = [1, 1, 1, 1, 1, 1, 1, 1, 1, 1, 1, 1, 1, 1, 1, 4, 4]\<rparr>,
      numNodos = 15, current_p = Fin 0, nodoActivo = replicate 15 False,
      superTop = 15, superBottom = 16, p_c = None\<rparr>
     [(3, 4), (3, 5), (3, 6), (3, 0), (12, 7), (12, 8), (12, 9), (12, 10), (12, 11), (12, 3)]
     (replicate 15 (Fin 0)) (Fin 0) 1 =
     Some (5, 11,
     \<lparr>uf = \<lparr>parent = [3, 1, 2, 12, 3, 3, 3, 12, 12, 12, 12, 12, 12, 13, 14], size_uf = [1, 1, 1, 5, 1, 1, 1, 1, 1, 1, 1, 1, 11, 1, 1]\<rparr>,
      uf_aux = \<lparr>parent = [15, 15, 15, 16, 3, 3, 3, 16, 16, 16, 16, 16, 16, 16, 16, 3, 16],
                size_uf = [1, 1, 1, 8, 1, 1, 1, 1, 1, 1, 1, 1, 1, 1, 1, 4, 17]\<rparr>,
      numNodos = 15, current_p = Fin 0, nodoActivo = replicate 15 True,
      superTop = 15, superBottom = 16, p_c = None\<rparr>, [])"
    by code_simp
  show "has_percolation
     \<lparr>uf = \<lparr>parent = [3, 1, 2, 12, 3, 3, 3, 12, 12, 12, 12, 12, 12, 13, 14], size_uf = [1, 1, 1, 5, 1, 1, 1, 1, 1, 1, 1, 1, 11, 1, 1]\<rparr>,
      uf_aux = \<lparr>parent = [15, 15, 15, 16, 3, 3, 3, 16, 16, 16, 16, 16, 16, 16, 16, 3, 16],
                size_uf = [1, 1, 1, 8, 1, 1, 1, 1, 1, 1, 1, 1, 1, 1, 1, 4, 17]\<rparr>,
      numNodos = 15, current_p = Fin 0, nodoActivo = replicate 15 True,
      superTop = 15, superBottom = 16, p_c = None\<rparr> =
     Some (True,
     \<lparr>uf = \<lparr>parent = [3, 1, 2, 12, 3, 3, 3, 12, 12, 12, 12, 12, 12, 13, 14], size_uf = [1, 1, 1, 5, 1, 1, 1, 1, 1, 1, 1, 1, 11, 1, 1]\<rparr>,
      uf_aux = \<lparr>parent = [15, 15, 15, 16, 3, 3, 3, 16, 16, 16, 16, 16, 16, 16, 16, 16, 16],
                size_uf = [1, 1, 1, 8, 1, 1, 1, 1, 1, 1, 1, 1, 1, 1, 1, 4, 17]\<rparr>,
      numNodos = 15, current_p = Fin 0, nodoActivo = replicate 15 True,
      superTop = 15, superBottom = 16, p_c = None\<rparr>)"
    by code_simp
qed simp_all

theorem has_percolation_keeps_representatives_witness:
  "engine_wf
     \<lparr>uf = \<lparr>parent = [3, 1, 2, 12, 3, 3, 3, 12, 12, 12, 12, 12, 12, 13, 14], size_uf = [1, 1, 1, 5, 1, 1, 1, 1, 1, 1, 1, 1, 11, 1, 1]\<rparr>,
      uf_aux = \<lparr>parent = [15, 15, 15, 16, 3, 3, 3, 16, 16, 16, 16, 16, 16, 16, 16, 3, 16],
                size_uf = [1, 1, 1, 8, 1, 1, 1, 1, 1, 1, 1, 1, 1, 1, 1, 4, 17]\<rparr>,
      numNodos = 15, current_p = Fin 0, nodoActivo = replicate 15 True,
      superTop = 15, superBottom = 16, p_c = None\<rparr> \<and>
   (\<exists>a. has_percolation
     \<lparr>uf = \<lparr>parent = [3, 1, 2, 12, 3, 3, 3, 12, 12, 12, 12, 12, 12, 13, 14], size_uf = [1, 1, 1, 5, 1, 1, 1, 1, 1, 1, 1, 1, 11, 1, 1]\<rparr>,
      uf_aux = \<lparr>parent = [15, 15, 15, 16, 3, 3, 3, 16, 16, 16, 16, 16, 16, 16, 16, 3, 16],
                size_uf = [1, 1, 1, 8, 1, 1, 1, 1, 1, 1, 1, 1, 1, 1, 1, 4, 17]\<rparr>,
      numNodos = 15, current_p = Fin 0, nodoActivo = replicate 15 True,
      superTop = 15, superBottom = 16, p_c = None\<rparr> =
     Some (root_of (parent (uf_aux
     \<lparr>uf = \<lparr>parent = [3, 1, 2, 12, 3, 3, 3, 12, 12, 12, 12, 12, 12, 13, 14], size_uf = [1, 1, 1, 5, 1, 1, 1, 1, 1, 1, 1, 1, 11, 1, 1]\<rparr>,
      uf_aux = \<lparr>parent = [15, 15, 15, 16, 3, 3, 3, 16, 16, 16, 16, 16, 16, 16, 16, 3, 16],
                size_uf = [1, 1, 1, 8, 1, 1, 1, 1, 1, 1, 1, 1, 1, 1, 1, 4, 17]\<rparr>,
      numNodos = 15, current_p = Fin 0, nodoActivo = replicate 15 True,
      superTop = 15, superBottom = 16, p_c = None\<rparr>)) 15 = root_of (parent (uf_aux
     \<lparr>uf = \<lparr>parent = [3, 1, 2, 12, 3, 3, 3, 12, 12, 12, 12, 12, 12, 13, 14], size_uf = [1, 1, 1, 5, 1, 1, 1, 1, 1, 1, 1, 1, 11, 1, 1]\<rparr>,
      uf_aux = \<lparr>parent = [15, 15, 15, 16, 3, 3, 3, 16, 16, 16, 16, 16, 16, 16, 16, 3, 16],
                size_uf = [1, 1, 1, 8, 1, 1, 1, 1, 1, 1, 1, 1, 1, 1, 1, 4, 17]\<rparr>,
      numNodos = 15, current_p = Fin 0, nodoActivo = replicate 15 True,
      superTop = 15, superBottom = 16, p_c = None\<rparr>)) 16,
     \<lparr>uf = \<lparr>parent = [3, 1, 2, 12, 3, 3, 3, 12, 12, 12, 12, 12, 12, 13, 14], size_uf = [1, 1, 1, 5, 1, 1, 1, 1, 1, 1, 1, 1, 11, 1, 1]\<rparr>,
      uf_aux = \<lparr>parent = [15, 15, 15, 16, 3, 3, 3, 16, 16, 16, 16, 16, 16, 16, 16, 3, 16],
                size_uf = [1, 1, 1, 8, 1, 1, 1, 1, 1, 1, 1, 1, 1, 1, 1, 4, 17]\<rparr>,
      numNodos = 15, current_p = Fin 0, nodoActivo = replicate 15 True,
      superTop = 15, superBottom = 16, p_c = None\<rparr>\<lparr>uf_aux := a\<rparr>) \<and>
     roots a = roots (uf_aux
     \<lparr>uf = \<lparr>parent = [3, 1, 2, 12, 3, 3, 3, 12, 12, 12, 12, 12, 12, 13, 14], size_uf = [1, 1, 1, 5, 1, 1, 1, 1, 1, 1, 1, 1, 11, 1, 1]\<rparr>,
      uf_aux = \<lparr>parent = [15, 15, 15, 16, 3, 3, 3, 16, 16, 16, 16, 16, 16, 16, 16, 3, 16],
                size_uf = [1, 1, 1, 8, 1, 1, 1, 1, 1, 1, 1, 1, 1, 1, 1, 4, 17]\<rparr>,
      numNodos = 15, current_p = Fin 0, nodoActivo = replicate 15 True,
      superTop = 15, superBottom = 16, p_c = None\<rparr>) \<and>
     size_uf a = size_uf (uf_aux
     \<lparr>uf = \<lparr>parent = [3, 1, 2, 12, 3, 3, 3, 12, 12, 12, 12, 12, 12, 13, 14], size_uf = [1, 1, 1, 5, 1, 1, 1, 1, 1, 1, 1, 1, 11, 1, 1]\<rparr>,
      uf_aux = \<lparr>parent = [15, 15, 15, 16, 3, 3, 3, 16, 16, 16, 16, 16, 16, 16, 16, 3, 16],
                size_uf = [1, 1, 1, 8, 1, 1, 1, 1, 1, 1, 1, 1, 1, 1, 1, 4, 17]\<rparr>,
      numNodos = 15, current_p = Fin 0, nodoActivo = replicate 15 True,
      superTop = 15, superBottom = 16, p_c = None\<rparr>))"
proof -
  have w: "engine_wf
     \<lparr>uf = \<lparr>parent = [3, 1, 2, 12, 3, 3, 3, 12, 12, 12, 12, 12, 12, 13, 14], size_uf = [1, 1, 1, 5, 1, 1, 1, 1, 1, 1, 1, 1, 11, 1, 1]\<rparr>,
      uf_aux = \<lparr>parent = [15, 15, 15, 16, 3, 3, 3, 16, 16, 16, 16, 16, 16, 16, 16, 3, 16],
                size_uf = [1, 1, 1, 8, 1, 1, 1, 1, 1, 1, 1, 1, 1, 1, 1, 4, 17]\<rparr>,
      numNodos = 15, current_p = Fin 0, nodoActivo = replicate 15 True,
      superTop = 15, superBottom = 16, p_c = None\<rparr>"
    by code_simp
  from has_percolation_keeps_representatives[OF w] w show ?thesis by simp
qed

text \<open>
  C3. Take a sweep after the boundary wiring, and let iteration \<open>j\<close> be the first one after
  whose incremental step \<^verbatim>\<open>has_percolation\<close> answers true. Then after every later number
  of iterations \<open>p_c\<close> is the \<open>p\<close> of iteration \<open>j\<close>, the flag is set, and the answer is still
  true. More generally, once the answer is true after some iteration it is true after
  every later one. The state the sweep returns is the state after some number \<open>K\<close> of
  iterations, so if iteration \<open>j\<close> was run, the \<open>p_c\<close> returned is its \<open>p\<close>.
\<close>

theorem critical_probability_recorded_once:
  assumes "initialize_supernodes s = Some s1"
    and "sweep_iter j aristas configuracion step visualization (sweep_start s1) = Some stj"
    and "sweep_iter (Suc j) aristas configuracion step visualization (sweep_start s1) = Some stj'"
    and "percolates (engine stj')"
    and "\<forall>i<j. \<forall>sti. sweep_iter (Suc i) aristas configuracion step visualization (sweep_start s1) = Some sti
           \<longrightarrow> \<not> percolates (engine sti)"
  shows "(\<forall>k stk. j < k \<and>
            sweep_iter k aristas configuracion step visualization (sweep_start s1) = Some stk \<longrightarrow>
            p_c (engine stk) = Some (p_var stj) \<and> percolation stk \<and> percolates (engine stk)) \<and>
         (\<forall>i k sti stk. i \<le> k \<and>
            sweep_iter i aristas configuracion step visualization (sweep_start s1) = Some sti \<and>
            percolates (engine sti) \<and>
            sweep_iter k aristas configuracion step visualization (sweep_start s1) = Some stk \<longrightarrow>
            percolates (engine stk)) \<and>
         (\<forall>fin. generate_full_percolation s aristas configuracion step visualization = Some fin \<longrightarrow>
            (\<exists>K. sweep_iter K aristas configuracion step visualization (sweep_start s1) = Some fin \<and>
                 (j < K \<longrightarrow> p_c (engine fin) = Some (p_var stj))))"
proof -
  have f0: "\<not> percolation (sweep_start s1)" by (simp add: sweep_start_def)
  have nj: "\<not> percolation stj"
  proof (cases j)
    case 0
    with assms(2) f0 show ?thesis by simp
  next
    case (Suc i)
    with assms(5) have "\<forall>sti. sweep_iter (Suc i) aristas configuracion step visualization (sweep_start s1) = Some sti
           \<longrightarrow> \<not> percolates (engine sti)" by blast
    with assms(2) Suc have "\<not> percolates (engine stj)" by blast
    with sweep_iter_flag[OF assms(2) f0] show ?thesis by simp
  qed
  from assms(3) obtain st' st1 where
    i: "sweep_iter j aristas configuracion step visualization (sweep_start s1) = Some st'"
    and b: "sweep_body aristas configuracion visualization st' = Some st1"
    and st: "stj' = st1\<lparr>p_var := dadd (p_var st1) step\<rparr>"
    by (rule sweep_iter_Suc)
  from i assms(2) have st': "st' = stj" by simp
  from sweep_body_engine[OF b] nj st' st assms(4)
  have first: "percolation stj'" "p_c (engine stj') = Some (p_var stj)" by simp_all
  have later_k: "p_c (engine stk) = Some (p_var stj) \<and> percolation stk \<and> percolates (engine stk)"
    if "j < k" "sweep_iter k aristas configuracion step visualization (sweep_start s1) = Some stk"
    for k stk
  proof -
    from that(1) have le: "Suc j \<le> k" by simp
    from sweep_iter_p_c_kept[OF assms(3) first(1) le that(2)] first(2)
      sweep_iter_percolates[OF assms(3,4) le that(2)]
    show ?thesis by simp
  qed
  have stable: "percolates (engine stk)"
    if "i \<le> k" "sweep_iter i aristas configuracion step visualization (sweep_start s1) = Some sti"
      "percolates (engine sti)"
      "sweep_iter k aristas configuracion step visualization (sweep_start s1) = Some stk"
    for i k sti stk
    using sweep_iter_percolates[OF that(2,3,1,4)] .
  have fin: "\<exists>K. sweep_iter K aristas configuracion step visualization (sweep_start s1) = Some fin \<and>
                 (j < K \<longrightarrow> p_c (engine fin) = Some (p_var stj))"
    if "generate_full_percolation s aristas configuracion step visualization = Some fin" for fin
  proof -
    from that assms(1) have "sweep_loop aristas configuracion step visualization (sweep_start s1) = Some fin"
      by (simp add: generate_full_percolation_def)
    from sweep_loop_iter[OF this] obtain K where
      K: "sweep_iter K aristas configuracion step visualization (sweep_start s1) = Some fin" by blast
    with later_k[of K fin] show ?thesis by blast
  qed
  from later_k stable fin show ?thesis by blast
qed

theorem critical_probability_recorded_once_witness:
  "initialize_supernodes (SitePercolation_init 4) =
     Some \<lparr>uf = \<lparr>parent = [0, 1, 2, 3], size_uf = [1, 1, 1, 1]\<rparr>,
        uf_aux = \<lparr>parent = [4, 4, 5, 5, 4, 5], size_uf = [1, 1, 1, 1, 3, 3]\<rparr>,
        numNodos = 4, current_p = Fin 0, nodoActivo = [False, False, False, False],
        superTop = 4, superBottom = 5, p_c = None\<rparr> \<and>
   sweep_iter 1 [(0, 2)] (replicate 4 (Fin (1 / 2))) (Fin 1) False
     (sweep_start \<lparr>uf = \<lparr>parent = [0, 1, 2, 3], size_uf = [1, 1, 1, 1]\<rparr>,
        uf_aux = \<lparr>parent = [4, 4, 5, 5, 4, 5], size_uf = [1, 1, 1, 1, 3, 3]\<rparr>,
        numNodos = 4, current_p = Fin 0, nodoActivo = [False, False, False, False],
        superTop = 4, superBottom = 5, p_c = None\<rparr>) =
     Some \<lparr>engine =
       \<lparr>uf = \<lparr>parent = [0, 1, 2, 3], size_uf = [1, 1, 1, 1]\<rparr>,
        uf_aux = \<lparr>parent = [4, 4, 5, 5, 4, 5], size_uf = [1, 1, 1, 1, 3, 3]\<rparr>,
        numNodos = 4, current_p = Fin 0, nodoActivo = [False, False, False, False],
        superTop = 4, superBottom = 5, p_c = None\<rparr>,
      p_var = Fin 1, Smax_var = 1, percolation = False,
      resultados = [(Fin 0, 4, 1, Fin (1 / 4))], percolation_report = [],
      cluster_of_each_node = [], cout = [], cerr = []\<rparr> \<and>
   \<not> percolates (engine \<lparr>engine =
       \<lparr>uf = \<lparr>parent = [0, 1, 2, 3], size_uf = [1, 1, 1, 1]\<rparr>,
        uf_aux = \<lparr>parent = [4, 4, 5, 5, 4, 5], size_uf = [1, 1, 1, 1, 3, 3]\<rparr>,
        numNodos = 4, current_p = Fin 0, nodoActivo = [False, False, False, False],
        superTop = 4, superBottom = 5, p_c = None\<rparr>,
      p_var = Fin 1, Smax_var = 1, percolation = False,
      resultados = [(Fin 0, 4, 1, Fin (1 / 4))], percolation_report = [],
      cluster_of_each_node = [], cout = [], cerr = []\<rparr>) \<and>
   sweep_iter 2 [(0, 2)] (replicate 4 (Fin (1 / 2))) (Fin 1) False
     (sweep_start \<lparr>uf = \<lparr>parent = [0, 1, 2, 3], size_uf = [1, 1, 1, 1]\<rparr>,
        uf_aux = \<lparr>parent = [4, 4, 5, 5, 4, 5], size_uf = [1, 1, 1, 1, 3, 3]\<rparr>,
        numNodos = 4, current_p = Fin 0, nodoActivo = [False, False, False, False],
        superTop = 4, superBottom = 5, p_c = None\<rparr>) =
     Some \<lparr>engine =
       \<lparr>uf = \<lparr>parent = [0, 1, 0, 3], size_uf = [2, 1, 1, 1]\<rparr>,
        uf_aux = \<lparr>parent = [4, 4, 5, 5, 4, 4], size_uf = [1, 1, 1, 1, 6, 3]\<rparr>,
        numNodos = 4, current_p = Fin 1, nodoActivo = [True, True, True, True],
        superTop = 4, superBottom = 5, p_c = Some (Fin 1)\<rparr>,
      p_var = Fin 2, Smax_var = 2, percolation = True,
      resultados = [(Fin 0, 4, 1, Fin (1 / 4)), (Fin 1, 3, 2, Fin (1 / 2))],
      percolation_report = [], cluster_of_each_node = [], cout = [Fin 1], cerr = []\<rparr> \<and>
   percolates (engine \<lparr>engine =
       \<lparr>uf = \<lparr>parent = [0, 1, 0, 3], size_uf = [2, 1, 1, 1]\<rparr>,
        uf_aux = \<lparr>parent = [4, 4, 5, 5, 4, 4], size_uf = [1, 1, 1, 1, 6, 3]\<rparr>,
        numNodos = 4, current_p = Fin 1, nodoActivo = [True, True, True, True],
        superTop = 4, superBottom = 5, p_c = Some (Fin 1)\<rparr>,
      p_var = Fin 2, Smax_var = 2, percolation = True,
      resultados = [(Fin 0, 4, 1, Fin (1 / 4)), (Fin 1, 3, 2, Fin (1 / 2))],
      percolation_report = [], cluster_of_each_node = [], cout = [Fin 1], cerr = []\<rparr>) \<and>
   generate_full_percolation (SitePercolation_init 4) [(0, 2)] (replicate 4 (Fin (1 / 2))) (Fin 1) False =
     Some \<lparr>engine =
       \<lparr>uf = \<lparr>parent = [0, 1, 0, 3], size_uf = [2, 1, 1, 1]\<rparr>,
        uf_aux = \<lparr>parent = [4, 4, 5, 5, 4, 4], size_uf = [1, 1, 1, 1, 6, 3]\<rparr>,
        numNodos = 4, current_p = Fin 1, nodoActivo = [True, True, True, True],
        superTop = 4, superBottom = 5, p_c = Some (Fin 1)\<rparr>,
      p_var = Fin 2, Smax_var = 2, percolation = True,
      resultados = [(Fin 0, 4, 1, Fin (1 / 4)), (Fin 1, 3, 2, Fin (1 / 2))],
      percolation_report = [], cluster_of_each_node = [], cout = [Fin 1], cerr = []\<rparr> \<and>
   p_c (engine \<lparr>engine =
       \<lparr>uf = \<lparr>parent = [0, 1, 0, 3], size_uf = [2, 1, 1, 1]\<rparr>,
        uf_aux = \<lparr>parent = [4, 4, 5, 5, 4, 4], size_uf = [1, 1, 1, 1, 6, 3]\<rparr>,
        numNodos = 4, current_p = Fin 1, nodoActivo = [True, True, True, True],
        superTop = 4, superBottom = 5, p_c = Some (Fin 1)\<rparr>,
      p_var = Fin 2, Smax_var = 2, percolation = True,
      resultados = [(Fin 0, 4, 1, Fin (1 / 4)), (Fin 1, 3, 2, Fin (1 / 2))],
      percolation_report = [], cluster_of_each_node = [], cout = [Fin 1], cerr = []\<rparr>) = Some (p_var \<lparr>engine =
       \<lparr>uf = \<lparr>parent = [0, 1, 2, 3], size_uf = [1, 1, 1, 1]\<rparr>,
        uf_aux = \<lparr>parent = [4, 4, 5, 5, 4, 5], size_uf = [1, 1, 1, 1, 3, 3]\<rparr>,
        numNodos = 4, current_p = Fin 0, nodoActivo = [False, False, False, False],
        superTop = 4, superBottom = 5, p_c = None\<rparr>,
      p_var = Fin 1, Smax_var = 1, percolation = False,
      resultados = [(Fin 0, 4, 1, Fin (1 / 4))], percolation_report = [],
      cluster_of_each_node = [], cout = [], cerr = []\<rparr>)"
proof -
  let ?s1 = "\<lparr>uf = \<lparr>parent = [0, 1, 2, 3], size_uf = [1, 1, 1, 1]\<rparr>,
        uf_aux = \<lparr>parent = [4, 4, 5, 5, 4, 5], size_uf = [1, 1, 1, 1, 3, 3]\<rparr>,
        numNodos = 4, current_p = Fin 0, nodoActivo = [False, False, False, False],
        superTop = 4, superBottom = 5, p_c = None\<rparr>"
  let ?st1 = "\<lparr>engine =
       \<lparr>uf = \<lparr>parent = [0, 1, 2, 3], size_uf = [1, 1, 1, 1]\<rparr>,
        uf_aux = \<lparr>parent = [4, 4, 5, 5, 4, 5], size_uf = [1, 1, 1, 1, 3, 3]\<rparr>,
        numNodos = 4, current_p = Fin 0, nodoActivo = [False, False, False, False],
        superTop = 4, superBottom = 5, p_c = None\<rparr>,
      p_var = Fin 1, Smax_var = 1, percolation = False,
      resultados = [(Fin 0, 4, 1, Fin (1 / 4))], percolation_report = [],
      cluster_of_each_node = [], cout = [], cerr = []\<rparr>"
  let ?st2 = "\<lparr>engine =
       \<lparr>uf = \<lparr>parent = [0, 1, 0, 3], size_uf = [2, 1, 1, 1]\<rparr>,
        uf_aux = \<lparr>parent = [4, 4, 5, 5, 4, 4], size_uf = [1, 1, 1, 1, 6, 3]\<rparr>,
        numNodos = 4, current_p = Fin 1, nodoActivo = [True, True, True, True],
        superTop = 4, superBottom = 5, p_c = Some (Fin 1)\<rparr>,
      p_var = Fin 2, Smax_var = 2, percolation = True,
      resultados = [(Fin 0, 4, 1, Fin (1 / 4)), (Fin 1, 3, 2, Fin (1 / 2))],
      percolation_report = [], cluster_of_each_node = [], cout = [Fin 1], cerr = []\<rparr>"
  have i: "initialize_supernodes (SitePercolation_init 4) = Some ?s1" by code_simp
  have a: "sweep_iter 1 [(0, 2)] (replicate 4 (Fin (1 / 2))) (Fin 1) False (sweep_start ?s1) = Some ?st1"
    by code_simp
  have n: "\<not> percolates (engine ?st1)" by code_simp
  have b: "sweep_iter (Suc 1) [(0, 2)] (replicate 4 (Fin (1 / 2))) (Fin 1) False (sweep_start ?s1) = Some ?st2"
    by code_simp
  have p: "percolates (engine ?st2)" by code_simp
  have g: "generate_full_percolation (SitePercolation_init 4) [(0, 2)] (replicate 4 (Fin (1 / 2))) (Fin 1) False = Some ?st2"
    by code_simp
  have f: "\<forall>i<1. \<forall>sti. sweep_iter (Suc i) [(0, 2)] (replicate 4 (Fin (1 / 2))) (Fin 1) False (sweep_start ?s1) = Some sti
             \<longrightarrow> \<not> percolates (engine sti)"
    using a n by simp
  note t = critical_probability_recorded_once[OF i a b p f]
  from conjunct1[OF t] b have c: "p_c (engine ?st2) = Some (p_var ?st1)"
    by (simp del: sweep_iter.simps)
  have b': "sweep_iter 2 [(0, 2)] (replicate 4 (Fin (1 / 2))) (Fin 1) False (sweep_start ?s1) = Some ?st2"
    using b by (simp only: numeral_2_eq_2 One_nat_def)
  from i a n b' p g c show ?thesis by (intro conjI)
qed




end
